theory Spec2Isabelle
  imports Main
begin

section \<open>The syntax tree handed to the walker\<close>

text \<open>
  \<^verbatim>\<open>app.py\<close> obtains its tree from \<^verbatim>\<open>graphql.parse\<close>, a library outside the
  repository. The walker reads four things of a node: whether it is a \<^verbatim>\<open>FieldNode\<close>,
  its \<^verbatim>\<open>arguments\<close>, its \<^verbatim>\<open>name.value\<close> and its \<^verbatim>\<open>selection_set\<close>. The datatypes
  below keep exactly these; aliases, directives, type conditions, variable definitions and
  source locations are never read and are left out.

  Strings are lists of \<^typ>\<open>char\<close>: a text is taken to consist of code points below 256.
\<close>

datatype value_node =
    IntValueNode string
  | FloatValueNode string
  | StringValueNode string
  | BooleanValueNode bool
  | EnumValueNode string
  | NullValueNode
  | ListValueNode "value_node list"
  | ObjectValueNode "(string \<times> value_node) list"
  | VariableNode string

datatype argument_node = ArgumentNode (arg_name: string) (arg_value: value_node)

text \<open>
  A selection is a field, a fragment spread (\<^verbatim>\<open>...Name\<close>, which has a name and no
  selection set) or an inline fragment (\<^verbatim>\<open>... on T { }\<close>, which has a selection set and
  no name). A field's selection set is optional: \<open>None\<close> is Python's \<^verbatim>\<open>None\<close>.
\<close>

datatype selection =
    FieldNode (field_name: string) (arguments: "argument_node list")
      (selection_set: "selection list option")
  | FragmentSpreadNode string
  | InlineFragmentNode "selection list"

text \<open>
  Operation and fragment definitions carry a selection set; the definitions of the type
  system (\<^verbatim>\<open>type\<close>, \<^verbatim>\<open>schema\<close>, \<^verbatim>\<open>enum\<close>, ...) which \<^verbatim>\<open>parse\<close> accepts as well have no
  such attribute.
\<close>

datatype definition_node =
    OperationDefinitionNode "selection list"
  | FragmentDefinitionNode string "selection list"
  | TypeSystemDefinitionNode

datatype document = DocumentNode (definitions: "definition_node list")

text \<open>\<^verbatim>\<open>visit_node\<close> is called on definitions and on selections alike.\<close>

datatype node = Definition definition_node | Selection selection

text \<open>
  The exceptions that can leave \<^verbatim>\<open>calculate_cost\<close>. \<^verbatim>\<open>int()\<close> raises \<^verbatim>\<open>ValueError\<close> in two
  ways: \<^verbatim>\<open>invalid literal for int() with base 10:\<close> followed by the text it was given
  (\<open>InvalidLiteral\<close>, carrying that text), and
  \<^verbatim>\<open>Exceeds the limit (4300 digits) for integer string conversion: value has N digits\<close>
  (\<open>ExceedsDigitLimit\<close>, carrying N), which does not show the text. \<open>AttributeError\<close>
  carries the class of the object and the attribute it lacks.
\<close>

datatype value_error = InvalidLiteral string | ExceedsDigitLimit nat

datatype error =
    GraphQLSyntaxError string
  | ValueError value_error
  | AttributeError string string

type_synonym entry = "string \<times> int"

section \<open>Python's \<^verbatim>\<open>int()\<close>\<close>

text \<open>
  \<^verbatim>\<open>int(s)\<close> on a string, base 10, as CPython 3.11 computes it. A \<^typ>\<open>char\<close> stands for
  a code point below 256; Python knows further spaces and decimal digits beyond that range,
  which a \<^typ>\<open>char\<close> cannot hold. Below 256 the spaces are the six ASCII ones, U+0085 and
  U+00A0, and the decimal digits are \<^verbatim>\<open>0\<close> to \<^verbatim>\<open>9\<close>.

  The steps, in the interpreter's order: leading spaces are skipped; one sign is taken; the
  text may not go on with an underscore; the run of digits and underscores is scanned, and
  two underscores in a row or one at its end are refused; more than
  \<^verbatim>\<open>sys.get_int_max_str_digits()\<close> digits (4300, which \<^verbatim>\<open>app.py\<close> does not change) are
  refused with the second kind of \<^verbatim>\<open>ValueError\<close>; there must be a digit; after the run only
  spaces may follow.
\<close>

definition is_space :: "char \<Rightarrow> bool" where
  "is_space c =
     (c \<in> set [CHR 0x09, CHR 0x0A, CHR 0x0B, CHR 0x0C, CHR 0x0D, CHR 0x20, CHR 0x85, CHR 0xA0])"

definition is_digit :: "char \<Rightarrow> bool" where
  "is_digit c = (48 \<le> (of_char c :: nat) \<and> (of_char c :: nat) \<le> 57)"

definition digit_value :: "char \<Rightarrow> int" where
  "digit_value c = int (of_char c) - 48"

definition numeral_char :: "char \<Rightarrow> bool" where
  "numeral_char c = (is_digit c \<or> c = CHR ''_'')"

fun double_underscore :: "string \<Rightarrow> bool" where
  "double_underscore (c # d # cs) =
     ((c = CHR ''_'' \<and> d = CHR ''_'') \<or> double_underscore (d # cs))"
| "double_underscore cs = False"

definition decimal_value :: "string \<Rightarrow> int" where
  "decimal_value ds = foldl (\<lambda>acc c. acc * 10 + digit_value c) 0 ds"

definition int_max_str_digits :: nat where
  "int_max_str_digits = 4300"

definition int_of_str :: "string \<Rightarrow> error + int" where
  "int_of_str s =
     (let t = dropWhile is_space s;
          negative = (case t of [] \<Rightarrow> False | c # cs \<Rightarrow> c = CHR ''-'');
          u = (case t of
                 [] \<Rightarrow> []
               | c # cs \<Rightarrow> if c = CHR ''+'' \<or> c = CHR ''-'' then cs else t);
          run = takeWhile numeral_char u;
          rest = dropWhile numeral_char u;
          digits = filter is_digit run
      in if (case u of [] \<Rightarrow> False | c # cs \<Rightarrow> c = CHR ''_'') \<or> double_underscore run \<or>
            (case rev run of [] \<Rightarrow> False | c # cs \<Rightarrow> c = CHR ''_'')
         then Inl (ValueError (InvalidLiteral s))
         else if int_max_str_digits < length digits
         then Inl (ValueError (ExceedsDigitLimit (length digits)))
         else if digits = [] \<or> dropWhile is_space rest \<noteq> []
         then Inl (ValueError (InvalidLiteral s))
         else Inr (if negative then - decimal_value digits else decimal_value digits))"

text \<open>
  \<^verbatim>\<open>int(argument.value.value)\<close>: the literals for integers, floats, strings and enum
  values hold their text in \<^verbatim>\<open>value\<close>, the Boolean literal holds a \<^verbatim>\<open>bool\<close>
  (\<^verbatim>\<open>int(True) == 1\<close>), and the nodes for \<^verbatim>\<open>null\<close>, lists, objects and variables have
  no attribute \<^verbatim>\<open>value\<close>.
\<close>

fun py_int :: "value_node \<Rightarrow> error + int" where
  "py_int (IntValueNode s) = int_of_str s"
| "py_int (FloatValueNode s) = int_of_str s"
| "py_int (StringValueNode s) = int_of_str s"
| "py_int (EnumValueNode s) = int_of_str s"
| "py_int (BooleanValueNode b) = Inr (if b then 1 else 0)"
| "py_int NullValueNode = Inl (AttributeError ''NullValueNode'' ''value'')"
| "py_int (ListValueNode vs) = Inl (AttributeError ''ListValueNode'' ''value'')"
| "py_int (ObjectValueNode fs) = Inl (AttributeError ''ObjectValueNode'' ''value'')"
| "py_int (VariableNode n) = Inl (AttributeError ''VariableNode'' ''value'')"

section \<open>The walker\<close>

text \<open>\<^verbatim>\<open>'.'.join(new_path)\<close>\<close>

fun join :: "string \<Rightarrow> string list \<Rightarrow> string" where
  "join sep [] = []"
| "join sep [x] = x"
| "join sep (x # y # ys) = x @ sep @ join sep (y # ys)"

text \<open>
  Lines 13 to 15: the loop over the arguments of a field. Each argument named
  \<^verbatim>\<open>limit\<close> overwrites \<^verbatim>\<open>child_limit\<close> with its value times \<^verbatim>\<open>current_limit\<close>, so the
  last one counts.
\<close>

fun child_limit_loop :: "argument_node list \<Rightarrow> int \<Rightarrow> int \<Rightarrow> error + int" where
  "child_limit_loop [] current_limit child_limit = Inr child_limit"
| "child_limit_loop (a # as) current_limit child_limit =
     (if arg_name a = ''limit'' then
        (case py_int (arg_value a) of
           Inl e \<Rightarrow> Inl e
         | Inr v \<Rightarrow> child_limit_loop as current_limit (v * current_limit))
      else child_limit_loop as current_limit child_limit)"

text \<open>\<^verbatim>\<open>isinstance(node, FieldNode)\<close>, with the arguments of the field.\<close>

fun field_arguments :: "node \<Rightarrow> argument_node list option" where
  "field_arguments (Selection (FieldNode n args ss)) = Some args"
| "field_arguments _ = None"

text \<open>
  \<^verbatim>\<open>hasattr(x, "selection_set") and x.selection_set\<close>: a selection set node is an
  object without \<^verbatim>\<open>__bool__\<close> or \<^verbatim>\<open>__len__\<close>, hence true whenever it is there.
\<close>

fun selections_of :: "selection \<Rightarrow> selection list option" where
  "selections_of (FieldNode n args ss) = ss"
| "selections_of (FragmentSpreadNode n) = None"
| "selections_of (InlineFragmentNode ss) = Some ss"

fun definition_selections :: "definition_node \<Rightarrow> selection list option" where
  "definition_selections (OperationDefinitionNode ss) = Some ss"
| "definition_selections (FragmentDefinitionNode n ss) = Some ss"
| "definition_selections TypeSystemDefinitionNode = None"

fun node_selections :: "node \<Rightarrow> selection list option" where
  "node_selections (Definition d) = definition_selections d"
| "node_selections (Selection s) = selections_of s"

text \<open>\<^verbatim>\<open>selection.name.value\<close>: an inline fragment has no \<^verbatim>\<open>name\<close>.\<close>

fun selection_name :: "selection \<Rightarrow> error + string" where
  "selection_name (FieldNode n args ss) = Inr n"
| "selection_name (FragmentSpreadNode n) = Inr n"
| "selection_name (InlineFragmentNode ss) = Inl (AttributeError ''InlineFragmentNode'' ''name'')"

fun node_measure :: "node \<Rightarrow> nat" where
  "node_measure (Definition (OperationDefinitionNode ss)) = size_list size ss"
| "node_measure (Definition (FragmentDefinitionNode n ss)) = size_list size ss"
| "node_measure (Definition TypeSystemDefinitionNode) = 0"
| "node_measure (Selection s) = size s"

text \<open>
  \<^verbatim>\<open>visit_node\<close> (lines 9 to 22). The list \<^verbatim>\<open>all_fields\<close>, which the source reaches
  through \<^verbatim>\<open>nonlocal\<close> and appends to, is passed in and returned. \<open>visit_selections\<close> is
  the loop of lines 17 to 22 over the selections of the node.
\<close>

function visit_node :: "node \<Rightarrow> string list \<Rightarrow> int \<Rightarrow> entry list \<Rightarrow> error + entry list"
  and visit_selections ::
    "selection list \<Rightarrow> string list \<Rightarrow> int \<Rightarrow> entry list \<Rightarrow> error + entry list"
where
  "visit_node nd path current_limit all_fields =
     (case (case field_arguments nd of
              None \<Rightarrow> Inr current_limit
            | Some args \<Rightarrow> child_limit_loop args current_limit current_limit) of
        Inl e \<Rightarrow> Inl e
      | Inr child_limit \<Rightarrow>
          (case node_selections nd of
             None \<Rightarrow> Inr all_fields
           | Some ss \<Rightarrow> visit_selections ss path child_limit all_fields))"
| "visit_selections [] path child_limit all_fields = Inr all_fields"
| "visit_selections (s # ss) path child_limit all_fields =
     (case selection_name s of
        Inl e \<Rightarrow> Inl e
      | Inr nm \<Rightarrow>
          (let new_path = path @ [nm] in
           case selections_of s of
             Some sub \<Rightarrow>
               (case visit_node (Selection s) new_path child_limit all_fields of
                  Inl e \<Rightarrow> Inl e
                | Inr all_fields' \<Rightarrow> visit_selections ss path child_limit all_fields')
           | None \<Rightarrow>
               visit_selections ss path child_limit
                 (all_fields @ [(join ''.'' new_path, child_limit)])))"
  by pat_completeness auto

termination
proof (relation "measure (\<lambda>x. case x of
          Inl (nd, p, l, a) \<Rightarrow> 2 * node_measure nd + 1
        | Inr (ss, p, l, a) \<Rightarrow> 2 * size_list size ss)", goal_cases)
  case 1
  show ?case by simp
next
  case (2 nd path current_limit all_fields child_limit ss)
  have "size_list size ss \<le> node_measure nd"
  proof (cases nd)
    case (Definition d)
    with 2 show ?thesis by (cases d) auto
  next
    case (Selection s)
    with 2 show ?thesis by (cases s) auto
  qed
  then show ?case by simp
qed simp_all

text \<open>Lines 24 to 26: the loop over the definitions of the document.\<close>

fun visit_definitions :: "definition_node list \<Rightarrow> entry list \<Rightarrow> error + entry list" where
  "visit_definitions [] all_fields = Inr all_fields"
| "visit_definitions (d # ds) all_fields =
     (case definition_selections d of
        Some ss \<Rightarrow>
          (case visit_node (Definition d) [] 1 all_fields of
             Inl e \<Rightarrow> Inl e
           | Inr all_fields' \<Rightarrow> visit_definitions ds all_fields')
      | None \<Rightarrow> visit_definitions ds all_fields)"

text \<open>
  \<^verbatim>\<open>extract_fields_and_limit\<close> (lines 5 to 28). The parser is a parameter: it returns
  the document or the exception it raised.
\<close>

definition extract_fields_and_limit ::
  "(string \<Rightarrow> error + document) \<Rightarrow> string \<Rightarrow> error + entry list" where
  "extract_fields_and_limit parse query =
     (case parse query of
        Inl e \<Rightarrow> Inl e
      | Inr doc \<Rightarrow> visit_definitions (definitions doc) [])"

text \<open>\<^verbatim>\<open>calculate_cost\<close> (lines 30 to 40).\<close>

definition calculate_cost ::
  "(string \<Rightarrow> error + document) \<Rightarrow> string \<Rightarrow> error + (int \<times> string list \<times> entry list)" where
  "calculate_cost parse query =
     (case extract_fields_and_limit parse query of
        Inl e \<Rightarrow> Inl e
      | Inr fields_with_limits \<Rightarrow>
          (let total_data_points = foldl (\<lambda>t (field, limit). t + limit) 0 fields_with_limits;
               total_cost = total_data_points + int (length fields_with_limits)
           in Inr (total_cost, map fst fields_with_limits, fields_with_limits)))"

declare visit_node.simps [simp del]

section \<open>The walker on list objects\<close>

text \<open>
  In Python the list \<^verbatim>\<open>all_fields\<close> (line 7) and the default value of \<^verbatim>\<open>path\<close> (line 9,
  evaluated once, when \<^verbatim>\<open>def\<close> runs) are objects: \<^verbatim>\<open>append\<close> changes \<^verbatim>\<open>all_fields\<close> in
  place, and every call of \<^verbatim>\<open>visit_node\<close> that gives no path receives the same default
  object. Here the walker is written once more with these objects in a heap, which lives
  on from one call of \<^verbatim>\<open>calculate_cost\<close> to the next. A reference is a number; the lists of
  strings and the lists of entries are kept apart; \<open>next_ref\<close> is the first reference not
  yet in use.
\<close>

datatype heap =
  Heap (next_ref: nat) (str_lists: "nat \<Rightarrow> string list") (entry_lists: "nat \<Rightarrow> entry list")

text \<open>
  A new list object, as made by \<^verbatim>\<open>[]\<close> and by \<^verbatim>\<open>path + [...]\<close>; and \<^verbatim>\<open>list.append\<close>, which
  changes the object it is called on.
\<close>

definition new_str_list :: "string list \<Rightarrow> heap \<Rightarrow> nat \<times> heap" where
  "new_str_list v h =
     (next_ref h, Heap (Suc (next_ref h)) ((str_lists h)(next_ref h := v)) (entry_lists h))"

definition new_entry_list :: "entry list \<Rightarrow> heap \<Rightarrow> nat \<times> heap" where
  "new_entry_list v h =
     (next_ref h, Heap (Suc (next_ref h)) (str_lists h) ((entry_lists h)(next_ref h := v)))"

definition append_entry :: "nat \<Rightarrow> entry \<Rightarrow> heap \<Rightarrow> heap" where
  "append_entry r e h =
     Heap (next_ref h) (str_lists h) ((entry_lists h)(r := entry_lists h r @ [e]))"

text \<open>
  \<^verbatim>\<open>visit_node\<close> with \<^verbatim>\<open>path\<close> and \<^verbatim>\<open>all_fields\<close> as references. It returns the heap it
  leaves behind also when it raises.
\<close>

function visit_node_heap ::
    "node \<Rightarrow> nat \<Rightarrow> int \<Rightarrow> nat \<Rightarrow> heap \<Rightarrow> (error + unit) \<times> heap"
  and visit_selections_heap ::
    "selection list \<Rightarrow> nat \<Rightarrow> int \<Rightarrow> nat \<Rightarrow> heap \<Rightarrow> (error + unit) \<times> heap"
where
  "visit_node_heap nd path current_limit all_fields h =
     (case (case field_arguments nd of
              None \<Rightarrow> Inr current_limit
            | Some args \<Rightarrow> child_limit_loop args current_limit current_limit) of
        Inl e \<Rightarrow> (Inl e, h)
      | Inr child_limit \<Rightarrow>
          (case node_selections nd of
             None \<Rightarrow> (Inr (), h)
           | Some ss \<Rightarrow> visit_selections_heap ss path child_limit all_fields h))"
| "visit_selections_heap [] path child_limit all_fields h = (Inr (), h)"
| "visit_selections_heap (s # ss) path child_limit all_fields h =
     (case selection_name s of
        Inl e \<Rightarrow> (Inl e, h)
      | Inr nm \<Rightarrow>
          (case new_str_list (str_lists h path @ [nm]) h of
             (new_path, h1) \<Rightarrow>
               (case selections_of s of
                  Some sub \<Rightarrow>
                    (case visit_node_heap (Selection s) new_path child_limit all_fields h1 of
                       (Inl e, h2) \<Rightarrow> (Inl e, h2)
                     | (Inr u, h2) \<Rightarrow> visit_selections_heap ss path child_limit all_fields h2)
                | None \<Rightarrow>
                    visit_selections_heap ss path child_limit all_fields
                      (append_entry all_fields
                         (join ''.'' (str_lists h1 new_path), child_limit) h1))))"
  by pat_completeness auto

termination
proof (relation "measure (\<lambda>x. case x of
          Inl (nd, p, l, a, h) \<Rightarrow> 2 * node_measure nd + 1
        | Inr (ss, p, l, a, h) \<Rightarrow> 2 * size_list size ss)", goal_cases)
  case 1
  show ?case by simp
next
  case (2 nd path current_limit all_fields h child_limit ss)
  have "size_list size ss \<le> node_measure nd"
  proof (cases nd)
    case (Definition d)
    with 2 show ?thesis by (cases d) auto
  next
    case (Selection s)
    with 2 show ?thesis by (cases s) auto
  qed
  then show ?case by simp
qed simp_all

declare visit_node_heap.simps [simp del]

text \<open>
  The loop of lines 24 to 26; each call \<^verbatim>\<open>visit_node(definition)\<close> receives the default
  object of \<^verbatim>\<open>path\<close>.
\<close>

fun visit_definitions_heap ::
  "definition_node list \<Rightarrow> nat \<Rightarrow> nat \<Rightarrow> heap \<Rightarrow> (error + unit) \<times> heap" where
  "visit_definitions_heap [] path_default all_fields h = (Inr (), h)"
| "visit_definitions_heap (d # ds) path_default all_fields h =
     (case definition_selections d of
        Some ss \<Rightarrow>
          (case visit_node_heap (Definition d) path_default 1 all_fields h of
             (Inl e, h1) \<Rightarrow> (Inl e, h1)
           | (Inr u, h1) \<Rightarrow> visit_definitions_heap ds path_default all_fields h1)
      | None \<Rightarrow> visit_definitions_heap ds path_default all_fields h)"

text \<open>
  \<^verbatim>\<open>extract_fields_and_limit\<close>: line 7 makes the list \<^verbatim>\<open>all_fields\<close>, line 9 makes the
  function and with it the default of \<^verbatim>\<open>path\<close>; the result is the reference of
  \<^verbatim>\<open>all_fields\<close>.
\<close>

definition extract_fields_and_limit_heap ::
  "(string \<Rightarrow> error + document) \<Rightarrow> string \<Rightarrow> heap \<Rightarrow> (error + nat) \<times> heap" where
  "extract_fields_and_limit_heap parse query h =
     (case parse query of
        Inl e \<Rightarrow> (Inl e, h)
      | Inr doc \<Rightarrow>
          (case new_entry_list [] h of
             (all_fields, h1) \<Rightarrow>
               (case new_str_list [] h1 of
                  (path_default, h2) \<Rightarrow>
                    (case visit_definitions_heap (definitions doc) path_default all_fields h2 of
                       (Inl e, h3) \<Rightarrow> (Inl e, h3)
                     | (Inr u, h3) \<Rightarrow> (Inr all_fields, h3)))))"

definition calculate_cost_heap ::
  "(string \<Rightarrow> error + document) \<Rightarrow> string \<Rightarrow> heap \<Rightarrow>
     (error + (int \<times> string list \<times> nat)) \<times> heap" where
  "calculate_cost_heap parse query h =
     (case extract_fields_and_limit_heap parse query h of
        (Inl e, h1) \<Rightarrow> (Inl e, h1)
      | (Inr fields_with_limits, h1) \<Rightarrow>
          (let total_data_points =
                 foldl (\<lambda>t (field, limit). t + limit) 0 (entry_lists h1 fields_with_limits);
               total_cost = total_data_points + int (length (entry_lists h1 fields_with_limits))
           in (Inr (total_cost, map fst (entry_lists h1 fields_with_limits), fields_with_limits),
               h1)))"

text \<open>What a caller reads in a result: the entries behind the reference.\<close>

fun report_value ::
  "(error + (int \<times> string list \<times> nat)) \<times> heap \<Rightarrow> error + (int \<times> string list \<times> entry list)" where
  "report_value (Inl e, h) = Inl e"
| "report_value (Inr (total_cost, fields, fields_with_limits), h) =
     Inr (total_cost, fields, entry_lists h fields_with_limits)"

text \<open>
  A step of the heap that leaves alone every list of strings it found and every list of
  entries other than the one at \<open>a\<close>; and a result of the heap walker that agrees with a
  result of the walker of the preceding section.
\<close>

definition heap_step :: "nat \<Rightarrow> heap \<Rightarrow> heap \<Rightarrow> bool" where
  "heap_step a h h' =
     (next_ref h \<le> next_ref h' \<and>
      (\<forall>p < next_ref h. str_lists h' p = str_lists h p) \<and>
      (\<forall>b. b \<noteq> a \<longrightarrow> entry_lists h' b = entry_lists h b))"

definition simulates ::
  "(error + unit) \<times> heap \<Rightarrow> error + entry list \<Rightarrow> nat \<Rightarrow> heap \<Rightarrow> bool" where
  "simulates res pure a h =
     (heap_step a h (snd res) \<and>
      (case pure of
         Inl e \<Rightarrow> fst res = Inl e
       | Inr es \<Rightarrow> fst res = Inr () \<and> entry_lists (snd res) a = es))"

section \<open>Notions of the specification\<close>

text \<open>
  A leaf occurrence is a selection without a selection set, together with the fields
  above it, outermost first, each with its arguments. \<open>leaf_occurrences\<close> lists the leaf
  occurrences of a selection set from left to right, depth first, as they are written. A
  fragment spread has no selection set and counts as a leaf under the name of the
  fragment; an inline fragment is looked through.
\<close>

type_synonym ancestors = "(string \<times> argument_node list) list"

fun leaf_occurrences :: "selection list \<Rightarrow> (ancestors \<times> string) list" where
  "leaf_occurrences [] = []"
| "leaf_occurrences (FieldNode n args (Some sub) # ss) =
     map (\<lambda>(anc, leaf). ((n, args) # anc, leaf)) (leaf_occurrences sub) @ leaf_occurrences ss"
| "leaf_occurrences (FieldNode n args None # ss) = ([], n) # leaf_occurrences ss"
| "leaf_occurrences (FragmentSpreadNode n # ss) = ([], n) # leaf_occurrences ss"
| "leaf_occurrences (InlineFragmentNode sub # ss) = leaf_occurrences sub @ leaf_occurrences ss"

definition definition_leaves :: "definition_node \<Rightarrow> (ancestors \<times> string) list" where
  "definition_leaves d =
     (case definition_selections d of None \<Rightarrow> [] | Some ss \<Rightarrow> leaf_occurrences ss)"

definition document_leaves :: "document \<Rightarrow> (ancestors \<times> string) list" where
  "document_leaves doc = concat (map definition_leaves (definitions doc))"

text \<open>
  The factor a field contributes: the value of its \<^verbatim>\<open>limit\<close> argument, and 1 when it has
  none. (Should a field carry several, the last one is the field's limit.)
\<close>

definition limit_factor :: "argument_node list \<Rightarrow> int" where
  "limit_factor args =
     (case filter (\<lambda>a. arg_name a = ''limit'') args of
        [] \<Rightarrow> 1
      | l # ls \<Rightarrow> (case py_int (arg_value (last (l # ls))) of Inl e \<Rightarrow> 1 | Inr v \<Rightarrow> v))"

text \<open>The product of the limits of the strict ancestors of a leaf.\<close>

definition effective_limit :: "ancestors \<Rightarrow> int" where
  "effective_limit anc = prod_list (map (\<lambda>(n, args). limit_factor args) anc)"

text \<open>The dot-joined names of the ancestors and of the leaf.\<close>

definition leaf_path :: "ancestors \<times> string \<Rightarrow> string" where
  "leaf_path occ = join ''.'' (map fst (fst occ) @ [snd occ])"

text \<open>All arguments written in a selection set, on leaves and on inner fields.\<close>

fun selection_arguments :: "selection \<Rightarrow> argument_node list" where
  "selection_arguments (FieldNode n args ss) =
     args @ (case ss of None \<Rightarrow> [] | Some sub \<Rightarrow> concat (map selection_arguments sub))"
| "selection_arguments (FragmentSpreadNode n) = []"
| "selection_arguments (InlineFragmentNode sub) = concat (map selection_arguments sub)"

definition definition_arguments :: "definition_node \<Rightarrow> argument_node list" where
  "definition_arguments d =
     (case definition_selections d of
        None \<Rightarrow> []
      | Some ss \<Rightarrow> concat (map selection_arguments ss))"

definition document_arguments :: "document \<Rightarrow> argument_node list" where
  "document_arguments doc = concat (map definition_arguments (definitions doc))"

definition no_limit_arguments :: "document \<Rightarrow> bool" where
  "no_limit_arguments doc = (\<forall>a \<in> set (document_arguments doc). arg_name a \<noteq> ''limit'')"

text \<open>
  The convention of the interface: every \<^verbatim>\<open>limit\<close> argument of the query is an integer
  literal whose value satisfies \<open>P\<close> (non-negative: \<open>P v = (0 \<le> v)\<close>).
\<close>

definition limit_literal :: "(int \<Rightarrow> bool) \<Rightarrow> argument_node \<Rightarrow> bool" where
  "limit_literal P a =
     (case arg_value a of
        IntValueNode s \<Rightarrow> (case int_of_str s of Inl e \<Rightarrow> False | Inr v \<Rightarrow> P v)
      | _ \<Rightarrow> False)"

definition limits_satisfy :: "(int \<Rightarrow> bool) \<Rightarrow> document \<Rightarrow> bool" where
  "limits_satisfy P doc =
     (\<forall>a \<in> set (document_arguments doc). arg_name a = ''limit'' \<longrightarrow> limit_literal P a)"

definition limits_nonnegative :: "document \<Rightarrow> bool" where
  "limits_nonnegative doc = limits_satisfy (\<lambda>v. 0 \<le> v) doc"

definition limits_positive :: "document \<Rightarrow> bool" where
  "limits_positive doc = limits_satisfy (\<lambda>v. 0 < v) doc"

text \<open>The same selection with the arguments of every leaf field removed.\<close>

fun without_leaf_arguments :: "selection \<Rightarrow> selection" where
  "without_leaf_arguments (FieldNode n args None) = FieldNode n [] None"
| "without_leaf_arguments (FieldNode n args (Some sub)) =
     FieldNode n args (Some (map without_leaf_arguments sub))"
| "without_leaf_arguments (FragmentSpreadNode n) = FragmentSpreadNode n"
| "without_leaf_arguments (InlineFragmentNode sub) =
     InlineFragmentNode (map without_leaf_arguments sub)"

fun definition_without_leaf_arguments :: "definition_node \<Rightarrow> definition_node" where
  "definition_without_leaf_arguments (OperationDefinitionNode ss) =
     OperationDefinitionNode (map without_leaf_arguments ss)"
| "definition_without_leaf_arguments (FragmentDefinitionNode n ss) =
     FragmentDefinitionNode n (map without_leaf_arguments ss)"
| "definition_without_leaf_arguments TypeSystemDefinitionNode = TypeSystemDefinitionNode"

definition document_without_leaf_arguments :: "document \<Rightarrow> document" where
  "document_without_leaf_arguments doc =
     DocumentNode (map definition_without_leaf_arguments (definitions doc))"

text \<open>
  One definition traversed on its own: from the multiplier 1, the empty path and an empty
  list of entries.
\<close>

definition definition_entries :: "definition_node \<Rightarrow> error + entry list" where
  "definition_entries d =
     (case definition_selections d of
        None \<Rightarrow> Inr []
      | Some ss \<Rightarrow> visit_node (Definition d) [] 1 [])"

text \<open>Results in document order: the first exception, or else all entries in a row.\<close>

fun concat_results :: "(error + entry list) list \<Rightarrow> error + entry list" where
  "concat_results [] = Inr []"
| "concat_results (r # rs) =
     (case r of
        Inl e \<Rightarrow> Inl e
      | Inr es \<Rightarrow> (case concat_results rs of Inl e \<Rightarrow> Inl e | Inr es' \<Rightarrow> Inr (es @ es')))"

text \<open>
  The entry of a leaf occurrence: its path and its effective limit; and the same below a
  given path and multiplier.
\<close>

definition leaf_entry :: "ancestors \<times> string \<Rightarrow> entry" where
  "leaf_entry occ = (leaf_path occ, effective_limit (fst occ))"

definition entry_under :: "string list \<Rightarrow> int \<Rightarrow> ancestors \<times> string \<Rightarrow> entry" where
  "entry_under path cl occ =
     (join ''.'' (path @ map fst (fst occ) @ [snd occ]), cl * effective_limit (fst occ))"


section \<open>Example queries\<close>

text \<open>\<^verbatim>\<open>{ a(limit: 2) }\<close>\<close>

definition leaf_limit_query :: document where
  "leaf_limit_query =
     DocumentNode [OperationDefinitionNode
       [FieldNode ''a'' [ArgumentNode ''limit'' (IntValueNode ''2'')] None]]"

text \<open>\<^verbatim>\<open>{ a(limit:10) { b(limit:3) { c } } }\<close>\<close>

definition nested_limits_query :: document where
  "nested_limits_query =
     DocumentNode [OperationDefinitionNode
       [FieldNode ''a'' [ArgumentNode ''limit'' (IntValueNode ''10'')] (Some
         [FieldNode ''b'' [ArgumentNode ''limit'' (IntValueNode ''3'')] (Some
           [FieldNode ''c'' [] None])])]]"

text \<open>\<^verbatim>\<open>{ a b c }\<close>\<close>

definition plain_query :: document where
  "plain_query =
     DocumentNode [OperationDefinitionNode
       [FieldNode ''a'' [] None, FieldNode ''b'' [] None, FieldNode ''c'' [] None]]"

text \<open>\<^verbatim>\<open>{ a(limit: 0) { b } }\<close>\<close>

definition zero_limit_query :: document where
  "zero_limit_query =
     DocumentNode [OperationDefinitionNode
       [FieldNode ''a'' [ArgumentNode ''limit'' (IntValueNode ''0'')] (Some
         [FieldNode ''b'' [] None])]]"


text \<open>\<^verbatim>\<open>query A { items(limit: 5) { id name } } query B { a b }\<close>\<close>

definition two_operations :: document where
  "two_operations =
     DocumentNode
       [OperationDefinitionNode
          [FieldNode ''items'' [ArgumentNode ''limit'' (IntValueNode ''5'')] (Some
            [FieldNode ''id'' [] None, FieldNode ''name'' [] None])],
        OperationDefinitionNode [FieldNode ''a'' [] None, FieldNode ''b'' [] None]]"

text \<open>\<^verbatim>\<open>{ a a b { a } a }\<close>\<close>

definition repeated_leaves_query :: document where
  "repeated_leaves_query =
     DocumentNode [OperationDefinitionNode
       [FieldNode ''a'' [] None, FieldNode ''a'' [] None,
        FieldNode ''b'' [] (Some [FieldNode ''a'' [] None]),
        FieldNode ''a'' [] None]]"

text \<open>A heap in which earlier work has left two objects of each kind.\<close>

definition used_heap :: heap where
  "used_heap = Heap 2 (\<lambda>r. [''stale'']) (\<lambda>r. [(''stale'', 99)])"

text \<open>
  A stand-in for the parser in the examples: it turns the one text given into the one
  document given and rejects every other input.
\<close>

definition parser_on :: "string \<Rightarrow> document \<Rightarrow> string \<Rightarrow> error + document" where
  "parser_on text doc query =
     (if query = text then Inr doc
      else Inl (GraphQLSyntaxError ''Syntax Error: Unexpected input.''))"

section \<open>What the walker computes\<close>

text \<open>The equations that evaluate \<^verbatim>\<open>int()\<close> on a given text.\<close>

lemmas int_of_str_eval =
  int_of_str_def Let_def is_space_def is_digit_def digit_value_def numeral_char_def
  decimal_value_def int_max_str_digits_def

lemma child_limit_loop_result:
  "child_limit_loop args cur cl = Inr v \<Longrightarrow>
   v = (if filter (\<lambda>a. arg_name a = ''limit'') args = [] then cl else limit_factor args * cur)"
proof (induction args arbitrary: cl)
  case Nil
  then show ?case by simp
next
  case (Cons a as)
  show ?case
  proof (cases "arg_name a = ''limit''")
    case True
    with Cons.prems obtain x where x: "py_int (arg_value a) = Inr x"
      and r: "child_limit_loop as cur (x * cur) = Inr v"
      by (auto split: sum.splits)
    from Cons.IH [OF r] x True show ?thesis
      by (auto simp: limit_factor_def split: list.splits)
  next
    case False
    with Cons.prems have "child_limit_loop as cur cl = Inr v" by simp
    from Cons.IH [OF this] False show ?thesis
      by (auto simp: limit_factor_def)
  qed
qed

lemma child_limit_loop_start:
  "child_limit_loop args cur cur = Inr v \<Longrightarrow> v = cur * limit_factor args"
  by (drule child_limit_loop_result) (auto simp: limit_factor_def)

lemma visit_append_all:
  fixes a0 :: "entry list"
  shows "\<forall>acc. visit_node nd path cur acc =
     (case visit_node nd path cur [] of Inl e \<Rightarrow> Inl e | Inr es \<Rightarrow> Inr (acc @ es))"
  and "\<forall>acc. visit_selections ss path cl acc =
     (case visit_selections ss path cl [] of Inl e \<Rightarrow> Inl e | Inr es \<Rightarrow> Inr (acc @ es))"
proof (induct nd path cur a0 and ss path cl a0 rule: visit_node_visit_selections.induct)
  case (1 nd path current_limit all_fields)
  show ?case
  proof
    fix acc
    show "visit_node nd path current_limit acc =
      (case visit_node nd path current_limit [] of Inl e \<Rightarrow> Inl e | Inr es \<Rightarrow> Inr (acc @ es))"
    proof (cases "case field_arguments nd of None \<Rightarrow> Inr current_limit
            | Some args \<Rightarrow> child_limit_loop args current_limit current_limit")
      case (Inl e)
      then show ?thesis by (simp add: visit_node.simps [of nd])
    next
      case (Inr child_limit)
      show ?thesis
      proof (cases "node_selections nd")
        case None
        with Inr show ?thesis by (simp add: visit_node.simps [of nd])
      next
        case (Some ss)
        from 1 [OF Inr Some]
        have "visit_selections ss path child_limit acc =
          (case visit_selections ss path child_limit [] of Inl e \<Rightarrow> Inl e | Inr es \<Rightarrow> Inr (acc @ es))"
          by blast
        with Inr Some show ?thesis by (simp add: visit_node.simps [of nd])
      qed
    qed
  qed
next
  case (2 path child_limit all_fields)
  then show ?case by simp
next
  case (3 s ss path child_limit all_fields)
  note ih = 3
  show ?case
  proof
    fix acc
    show "visit_selections (s # ss) path child_limit acc =
      (case visit_selections (s # ss) path child_limit [] of Inl e \<Rightarrow> Inl e
       | Inr es \<Rightarrow> Inr (acc @ es))"
    proof (cases "selection_name s")
      case (Inl e)
      then show ?thesis by simp
    next
      case (Inr nm)
      show ?thesis
      proof (cases "selections_of s")
        case None
        from ih(1) [OF Inr refl None]
        have a: "\<And>acc. visit_selections ss path child_limit acc =
          (case visit_selections ss path child_limit [] of Inl e \<Rightarrow> Inl e
           | Inr es \<Rightarrow> Inr (acc @ es))" by blast
        have "visit_selections (s # ss) path child_limit acc =
           visit_selections ss path child_limit (acc @ [(join ''.'' (path @ [nm]), child_limit)])"
          using Inr None by simp
        also have "\<dots> = (case visit_selections ss path child_limit [] of Inl e \<Rightarrow> Inl e
           | Inr es \<Rightarrow> Inr ((acc @ [(join ''.'' (path @ [nm]), child_limit)]) @ es))"
          by (rule a)
        finally have l: "visit_selections (s # ss) path child_limit acc =
           (case visit_selections ss path child_limit [] of Inl e \<Rightarrow> Inl e
           | Inr es \<Rightarrow> Inr ((acc @ [(join ''.'' (path @ [nm]), child_limit)]) @ es))" .
        have "visit_selections (s # ss) path child_limit [] =
           visit_selections ss path child_limit [(join ''.'' (path @ [nm]), child_limit)]"
          using Inr None by simp
        also have "\<dots> = (case visit_selections ss path child_limit [] of Inl e \<Rightarrow> Inl e
           | Inr es \<Rightarrow> Inr ([(join ''.'' (path @ [nm]), child_limit)] @ es))"
          by (rule a)
        finally have r: "visit_selections (s # ss) path child_limit [] =
           (case visit_selections ss path child_limit [] of Inl e \<Rightarrow> Inl e
           | Inr es \<Rightarrow> Inr ([(join ''.'' (path @ [nm]), child_limit)] @ es))" .
        show ?thesis unfolding l r by (simp split: sum.splits)
      next
        case (Some sub)
        from ih(2) [OF Inr refl Some]
        have n: "\<And>acc. visit_node (Selection s) (path @ [nm]) child_limit acc =
          (case visit_node (Selection s) (path @ [nm]) child_limit [] of Inl e \<Rightarrow> Inl e
           | Inr es \<Rightarrow> Inr (acc @ es))" by blast
        show ?thesis
        proof (cases "visit_node (Selection s) (path @ [nm]) child_limit []")
          case (Inl e)
          have "visit_node (Selection s) (path @ [nm]) child_limit acc = Inl e"
            using n [of acc] Inl by simp
          with Inl Inr Some show ?thesis by simp
        next
          case b: (Inr b)
          have nb: "\<And>acc. visit_node (Selection s) (path @ [nm]) child_limit acc = Inr (acc @ b)"
            using n b by simp
          from ih(3) [OF Inr refl Some nb [of all_fields]]
          have a: "\<And>acc. visit_selections ss path child_limit acc =
            (case visit_selections ss path child_limit [] of Inl e \<Rightarrow> Inl e
             | Inr es \<Rightarrow> Inr (acc @ es))" by blast
          have l: "visit_selections (s # ss) path child_limit acc =
             (case visit_selections ss path child_limit [] of Inl e \<Rightarrow> Inl e
             | Inr es \<Rightarrow> Inr ((acc @ b) @ es))"
            using Inr Some nb [of acc] a [of "acc @ b"] by simp
          have r: "visit_selections (s # ss) path child_limit [] =
             (case visit_selections ss path child_limit [] of Inl e \<Rightarrow> Inl e
             | Inr es \<Rightarrow> Inr (b @ es))"
            using Inr Some b a [of b] by simp
          show ?thesis unfolding l r by (simp split: sum.splits)
        qed
      qed
    qed
  qed
qed


lemma visit_node_append:
  "visit_node nd path cur acc =
     (case visit_node nd path cur [] of Inl e \<Rightarrow> Inl e | Inr es \<Rightarrow> Inr (acc @ es))"
  using visit_append_all(1) [of nd path cur] by blast

lemma visit_selections_append:
  "visit_selections ss path cl acc =
     (case visit_selections ss path cl [] of Inl e \<Rightarrow> Inl e | Inr es \<Rightarrow> Inr (acc @ es))"
  using visit_append_all(2) [of ss path cl] by blast

lemma visit_selections_Inr:
  assumes "visit_selections ss path cl acc = Inr es"
  obtains es' where "visit_selections ss path cl [] = Inr es'" and "es = acc @ es'"
  using assms visit_selections_append [of ss path cl acc] by (auto split: sum.splits)

lemma visit_field:
  "visit_node (Selection (FieldNode n args ss)) path cur acc =
     (case child_limit_loop args cur cur of
        Inl e \<Rightarrow> Inl e
      | Inr v \<Rightarrow> (case ss of None \<Rightarrow> Inr acc | Some sub \<Rightarrow> visit_selections sub path v acc))"
  by (cases "child_limit_loop args cur cur") (simp_all add: visit_node.simps)

lemma visit_definition:
  "visit_node (Definition d) path cur acc =
     (case definition_selections d of
        None \<Rightarrow> Inr acc
      | Some ss \<Rightarrow> visit_selections ss path cur acc)"
  by (simp add: visit_node.simps)

lemma visit_selections_entries:
  "visit_selections ss path cl [] = Inr es \<Longrightarrow>
   es = map (entry_under path cl) (leaf_occurrences ss)"
proof (induction ss arbitrary: path cl es rule: leaf_occurrences.induct)
  case 1
  then show ?case by simp
next
  case (2 n args sub ss)
  from "2.prems" obtain v mid where v: "child_limit_loop args cl cl = Inr v"
    and mid: "visit_selections sub (path @ [n]) v [] = Inr mid"
    and rest: "visit_selections ss path cl mid = Inr es"
    by (auto simp: visit_field split: sum.splits)
  from rest obtain es' where es': "visit_selections ss path cl [] = Inr es'" and es: "es = mid @ es'"
    by (rule visit_selections_Inr)
  have vv: "v = cl * limit_factor args" using v by (rule child_limit_loop_start)
  have "mid = map (entry_under (path @ [n]) v) (leaf_occurrences sub)"
    using mid by (rule "2.IH"(1))
  moreover have "es' = map (entry_under path cl) (leaf_occurrences ss)"
    using es' by (rule "2.IH"(2))
  ultimately show ?case using es vv
    by (auto simp: entry_under_def effective_limit_def)
next
  case (3 n args ss)
  from "3.prems" have rest: "visit_selections ss path cl [(join ''.'' (path @ [n]), cl)] = Inr es"
    by simp
  from rest obtain es' where es': "visit_selections ss path cl [] = Inr es'"
    and es: "es = [(join ''.'' (path @ [n]), cl)] @ es'"
    by (rule visit_selections_Inr)
  from "3.IH" [OF es'] es show ?case
    by (simp add: entry_under_def effective_limit_def)
next
  case (4 n ss)
  from "4.prems" have rest: "visit_selections ss path cl [(join ''.'' (path @ [n]), cl)] = Inr es"
    by simp
  from rest obtain es' where es': "visit_selections ss path cl [] = Inr es'"
    and es: "es = [(join ''.'' (path @ [n]), cl)] @ es'"
    by (rule visit_selections_Inr)
  from "4.IH" [OF es'] es show ?case
    by (simp add: entry_under_def effective_limit_def)
next
  case (5 sub ss)
  then show ?case by simp
qed

lemma entry_under_root: "entry_under [] 1 = leaf_entry"
  by (rule ext) (simp add: entry_under_def leaf_entry_def leaf_path_def)

lemma visit_definitions_append:
  "visit_definitions ds acc =
     (case visit_definitions ds [] of Inl e \<Rightarrow> Inl e | Inr es \<Rightarrow> Inr (acc @ es))"
proof (induction ds arbitrary: acc)
  case Nil
  then show ?case by simp
next
  case (Cons d ds)
  show ?case
  proof (cases "definition_selections d")
    case None
    then show ?thesis using Cons.IH [of acc] by simp
  next
    case (Some ss)
    show ?thesis
    proof (cases "visit_node (Definition d) [] 1 []")
      case (Inl e)
      then show ?thesis using Some visit_node_append [of "Definition d" "[]" 1 acc] by simp
    next
      case (Inr b)
      then have "visit_node (Definition d) [] 1 acc = Inr (acc @ b)"
        using visit_node_append [of "Definition d" "[]" 1 acc] by simp
      then show ?thesis using Some Inr Cons.IH [of "acc @ b"] Cons.IH [of b]
        by (simp split: sum.splits)
    qed
  qed
qed

lemma visit_definitions_concat:
  "visit_definitions ds [] = concat_results (map definition_entries ds)"
proof (induction ds)
  case Nil
  then show ?case by simp
next
  case (Cons d ds)
  show ?case
  proof (cases "definition_selections d")
    case None
    then show ?thesis using Cons.IH by (simp add: definition_entries_def split: sum.splits)
  next
    case (Some ss)
    show ?thesis
    proof (cases "visit_node (Definition d) [] 1 []")
      case (Inl e)
      then show ?thesis using Some by (simp add: definition_entries_def)
    next
      case (Inr b)
      then show ?thesis using Some Cons.IH visit_definitions_append [of ds b]
        by (simp add: definition_entries_def split: sum.splits)
    qed
  qed
qed

lemma definition_entries_leaves:
  "definition_entries d = Inr es \<Longrightarrow> es = map leaf_entry (definition_leaves d)"
  by (cases "definition_selections d")
     (auto simp: definition_entries_def definition_leaves_def visit_definition
        entry_under_root [symmetric] dest: visit_selections_entries)

lemma concat_results_leaves:
  "concat_results (map definition_entries ds) = Inr es \<Longrightarrow>
   es = map leaf_entry (concat (map definition_leaves ds))"
proof (induction ds arbitrary: es)
  case Nil
  then show ?case by simp
next
  case (Cons d ds)
  from Cons.prems obtain e1 e2 where e1: "definition_entries d = Inr e1"
    and e2: "concat_results (map definition_entries ds) = Inr e2" and es: "es = e1 @ e2"
    by (auto split: sum.splits)
  from Cons.IH [OF e2] definition_entries_leaves [OF e1] es show ?case by simp
qed

lemma extract_entries:
  assumes "parse q = Inr doc" and "extract_fields_and_limit parse q = Inr es"
  shows "es = map leaf_entry (document_leaves doc)"
  using assms
  by (simp add: extract_fields_and_limit_def visit_definitions_concat document_leaves_def
      concat_results_leaves)

lemma foldl_limits:
  "foldl (\<lambda>t (field, limit). t + limit) a es = a + sum_list (map snd es)"
  by (induction es arbitrary: a) (auto simp: add.assoc)

lemma calculate_cost_Inr:
  "calculate_cost parse q = Inr (t, fs, es) \<longleftrightarrow>
     extract_fields_and_limit parse q = Inr es \<and> fs = map fst es \<and>
     t = sum_list (map snd es) + int (length es)"
  by (auto simp: calculate_cost_def foldl_limits Let_def split: sum.splits)

lemmas query_eval =
  calculate_cost_def extract_fields_and_limit_def parser_on_def visit_definition visit_field
  int_of_str_eval

lemma calculate_cost_entries:
  assumes "parse q = Inr doc" and "calculate_cost parse q = Inr (total_cost, fields, entries)"
  shows "entries = map leaf_entry (document_leaves doc)"
  using assms extract_entries [of parse q doc entries] by (simp add: calculate_cost_Inr)

lemma ancestor_arguments:
  "(anc, leaf) \<in> set (leaf_occurrences ss) \<Longrightarrow> (n, args) \<in> set anc \<Longrightarrow>
   set args \<subseteq> set (concat (map selection_arguments ss))"
  by (induction ss arbitrary: anc rule: leaf_occurrences.induct) (auto, blast+)

lemma document_ancestor_arguments:
  assumes "(anc, leaf) \<in> set (document_leaves doc)" and "(n, args) \<in> set anc"
  shows "set args \<subseteq> set (document_arguments doc)"
proof -
  from assms(1) obtain d where d: "d \<in> set (definitions doc)"
    and l: "(anc, leaf) \<in> set (definition_leaves d)"
    by (auto simp: document_leaves_def)
  from l obtain ss where ss: "definition_selections d = Some ss"
    and o: "(anc, leaf) \<in> set (leaf_occurrences ss)"
    by (cases "definition_selections d") (auto simp: definition_leaves_def)
  from ancestor_arguments [OF o assms(2)] ss
  have "set args \<subseteq> set (definition_arguments d)"
    by (simp add: definition_arguments_def)
  with d show ?thesis by (auto simp: document_arguments_def)
qed

lemma limit_factor_no_limit:
  "\<forall>a \<in> set args. arg_name a \<noteq> ''limit'' \<Longrightarrow> limit_factor args = 1"
  by (simp add: limit_factor_def filter_False)

lemma prod_list_ones: "\<forall>x \<in> set xs. x = (1::int) \<Longrightarrow> prod_list xs = 1"
  by (induction xs) auto

lemma sum_list_ones: "\<forall>x \<in> set xs. x = (1::int) \<Longrightarrow> sum_list xs = int (length xs)"
  by (induction xs) auto

lemma effective_limit_no_limit:
  assumes "no_limit_arguments doc" and "(anc, leaf) \<in> set (document_leaves doc)"
  shows "effective_limit anc = 1"
proof -
  have "limit_factor args = 1" if "(n, args) \<in> set anc" for n args
    using document_ancestor_arguments [OF assms(2) that] assms(1)
    by (intro limit_factor_no_limit) (auto simp: no_limit_arguments_def)
  then show ?thesis
    unfolding effective_limit_def by (intro prod_list_ones) auto
qed

lemma limit_factor_satisfies:
  assumes "P 1" and "\<forall>a \<in> set args. arg_name a = ''limit'' \<longrightarrow> limit_literal P a"
  shows "P (limit_factor args)"
proof (cases "filter (\<lambda>a. arg_name a = ''limit'') args")
  case Nil
  with assms(1) show ?thesis by (simp add: limit_factor_def)
next
  case (Cons l ls)
  have "last (l # ls) \<in> set (filter (\<lambda>a. arg_name a = ''limit'') args)"
    unfolding Cons by (rule last_in_set) simp
  then have "limit_literal P (last (l # ls))"
    using assms(2) by auto
  then obtain s v where "arg_value (last (l # ls)) = IntValueNode s"
    and "int_of_str s = Inr v" and "P v"
    by (auto simp: limit_literal_def split: value_node.splits sum.splits)
  then show ?thesis using Cons by (simp add: limit_factor_def)
qed

lemma prod_list_satisfies:
  assumes "P (1::int)" and "\<And>x y. P x \<Longrightarrow> P y \<Longrightarrow> P (x * y)" and "\<forall>x \<in> set xs. P x"
  shows "P (prod_list xs)"
  using assms(3) by (induction xs) (auto intro: assms)

lemma effective_limit_satisfies:
  assumes "P 1" and "\<And>x y. P x \<Longrightarrow> P y \<Longrightarrow> P (x * y)"
    and "limits_satisfy P doc" and "(anc, leaf) \<in> set (document_leaves doc)"
  shows "P (effective_limit anc)"
proof -
  have f: "P (limit_factor args)" if "(n, args) \<in> set anc" for n args
  proof (rule limit_factor_satisfies [where P = P])
    show "P 1" by (rule assms(1))
    show "\<forall>a \<in> set args. arg_name a = ''limit'' \<longrightarrow> limit_literal P a"
      using document_ancestor_arguments [OF assms(4) that] assms(3)
      by (auto simp: limits_satisfy_def)
  qed
  have "P (prod_list (map (\<lambda>(n, args). limit_factor args) anc))"
  proof (rule prod_list_satisfies [where P = P])
    show "P 1" by (rule assms(1))
    show "P (x * y)" if "P x" and "P y" for x y using that by (rule assms(2))
    show "\<forall>x \<in> set (map (\<lambda>(n, args). limit_factor args) anc). P x"
      using f by auto
  qed
  then show ?thesis by (simp add: effective_limit_def)
qed

lemma visit_selections_without_leaf_arguments:
  "visit_selections (map without_leaf_arguments ss) path cl acc = visit_selections ss path cl acc"
proof (induction ss arbitrary: path cl acc rule: leaf_occurrences.induct)
  case 1
  show ?case by simp
next
  case (2 n args sub ss)
  show ?case by (simp add: visit_field "2.IH" split: sum.splits)
next
  case (3 n args ss)
  show ?case by (simp add: "3.IH")
next
  case (4 n ss)
  show ?case by (simp add: "4.IH")
next
  case (5 sub ss)
  show ?case by simp
qed

lemma visit_definitions_without_leaf_arguments:
  "visit_definitions (map definition_without_leaf_arguments ds) acc = visit_definitions ds acc"
proof (induction ds arbitrary: acc)
  case Nil
  show ?case by simp
next
  case (Cons d ds)
  show ?case
    by (cases d)
       (simp_all add: visit_definition visit_selections_without_leaf_arguments Cons.IH
          split: sum.splits)
qed














lemma heap_step_refl: "heap_step a h h"
  by (simp add: heap_step_def)

lemma heap_step_trans: "heap_step a h h1 \<Longrightarrow> heap_step a h1 h2 \<Longrightarrow> heap_step a h h2"
  by (auto simp: heap_step_def)

lemma new_str_list_props:
  assumes "new_str_list v h = (p, h1)"
  shows "p = next_ref h" and "next_ref h1 = Suc (next_ref h)"
    and "str_lists h1 = (str_lists h)(next_ref h := v)" and "entry_lists h1 = entry_lists h"
  using assms by (auto simp: new_str_list_def)

lemma new_entry_list_props:
  assumes "new_entry_list v h = (p, h1)"
  shows "p = next_ref h" and "next_ref h1 = Suc (next_ref h)"
    and "str_lists h1 = str_lists h" and "entry_lists h1 = (entry_lists h)(next_ref h := v)"
  using assms by (auto simp: new_entry_list_def)

lemma heap_step_new_str_list: "new_str_list v h = (p, h1) \<Longrightarrow> heap_step a h h1"
  by (auto simp: new_str_list_def heap_step_def)

lemma heap_step_append_entry: "heap_step a h (append_entry a e h)"
  by (simp add: append_entry_def heap_step_def)

lemma simulates_from:
  "heap_step a h h1 \<Longrightarrow> simulates res pure a h1 \<Longrightarrow> simulates res pure a h"
  by (auto simp: simulates_def intro: heap_step_trans)

lemma walker_simulates:
  "path < next_ref h \<Longrightarrow>
   simulates (visit_node_heap nd path cur a h)
     (visit_node nd (str_lists h path) cur (entry_lists h a)) a h"
  "path < next_ref h \<Longrightarrow>
   simulates (visit_selections_heap ss path cl a h)
     (visit_selections ss (str_lists h path) cl (entry_lists h a)) a h"
proof (induction nd path cur a h and ss path cl a h rule: visit_node_heap_visit_selections_heap.induct)
  case (1 nd path current_limit all_fields h)
  show ?case
  proof (cases "case field_arguments nd of None \<Rightarrow> Inr current_limit
            | Some args \<Rightarrow> child_limit_loop args current_limit current_limit")
    case (Inl e)
    then show ?thesis
      by (simp add: visit_node.simps [of nd] visit_node_heap.simps [of nd] simulates_def
          heap_step_refl)
  next
    case (Inr child_limit)
    show ?thesis
    proof (cases "node_selections nd")
      case None
      with Inr show ?thesis
        by (simp add: visit_node.simps [of nd] visit_node_heap.simps [of nd] simulates_def
            heap_step_refl)
    next
      case (Some ss)
      from "1.IH" [OF Inr Some "1.prems"] Inr Some show ?thesis
        by (simp add: visit_node.simps [of nd] visit_node_heap.simps [of nd])
    qed
  qed
next
  case (2 path child_limit all_fields h)
  show ?case by (simp add: simulates_def heap_step_refl)
next
  case (3 s ss path child_limit all_fields h)
  show ?case
  proof (cases "selection_name s")
    case (Inl e)
    then show ?thesis by (simp add: simulates_def heap_step_refl)
  next
    case (Inr nm)
    obtain p h1 where n: "new_str_list (str_lists h path @ [nm]) h = (p, h1)"
      by fastforce
    note np = new_str_list_props [OF n]
    have hs1: "heap_step all_fields h h1"
      using n by (rule heap_step_new_str_list)
    have sp: "str_lists h1 p = str_lists h path @ [nm]"
      using np by simp
    have spath: "str_lists h1 path = str_lists h path"
      using np "3.prems" by simp
    have e1: "entry_lists h1 = entry_lists h"
      using np by simp
    have lt: "p < next_ref h1" "path < next_ref h1"
      using np "3.prems" by simp_all
    show ?thesis
    proof (cases "selections_of s")
      case None
      let ?h2 = "append_entry all_fields (join ''.'' (str_lists h1 p), child_limit) h1"
      have a2: "next_ref ?h2 = next_ref h1" "str_lists ?h2 = str_lists h1"
        "entry_lists ?h2 all_fields =
           entry_lists h all_fields @ [(join ''.'' (str_lists h path @ [nm]), child_limit)]"
        by (simp_all add: append_entry_def e1 sp)
      have hs2: "heap_step all_fields h ?h2"
        using hs1 heap_step_append_entry by (rule heap_step_trans)
      have "simulates (visit_selections_heap ss path child_limit all_fields ?h2)
          (visit_selections ss (str_lists ?h2 path) child_limit (entry_lists ?h2 all_fields))
          all_fields ?h2"
        using lt(2) by (intro "3.IH"(1) [OF Inr n [symmetric] None]) (simp add: a2)
      then have "simulates (visit_selections_heap ss path child_limit all_fields ?h2)
          (visit_selections ss (str_lists h path) child_limit
             (entry_lists h all_fields @ [(join ''.'' (str_lists h path @ [nm]), child_limit)]))
          all_fields h"
        using hs2 by (simp add: a2 spath simulates_from)
      then show ?thesis using Inr n None by simp
    next
      case (Some sub)
      obtain r h2 where v: "visit_node_heap (Selection s) p child_limit all_fields h1 = (r, h2)"
        by fastforce
      have sim1: "simulates (r, h2)
          (visit_node (Selection s) (str_lists h path @ [nm]) child_limit (entry_lists h all_fields))
          all_fields h1"
        using "3.IH"(2) [OF Inr n [symmetric] Some lt(1)] by (simp add: v sp e1)
      then have hs2: "heap_step all_fields h h2"
        using hs1 by (auto simp: simulates_def intro: heap_step_trans)
      show ?thesis
      proof (cases "visit_node (Selection s) (str_lists h path @ [nm]) child_limit
          (entry_lists h all_fields)")
        case (Inl e)
        with sim1 have "r = Inl e" by (simp add: simulates_def)
        then show ?thesis using Inr n Some v Inl hs2 by (simp add: simulates_def)
      next
        case es: (Inr es)
        with sim1 have r: "r = Inr ()" and e2: "entry_lists h2 all_fields = es"
          and s12: "heap_step all_fields h1 h2"
          by (simp_all add: simulates_def)
        have lt2: "path < next_ref h2" and sp2: "str_lists h2 path = str_lists h path"
          using s12 lt(2) spath by (auto simp: heap_step_def)
        have "simulates (visit_selections_heap ss path child_limit all_fields h2)
            (visit_selections ss (str_lists h2 path) child_limit (entry_lists h2 all_fields))
            all_fields h2"
          by (rule "3.IH"(3) [OF Inr n [symmetric] Some v [symmetric] r lt2])
        then have "simulates (visit_selections_heap ss path child_limit all_fields h2)
            (visit_selections ss (str_lists h path) child_limit es) all_fields h"
          using hs2 by (simp add: sp2 e2 simulates_from)
        then show ?thesis using Inr n Some v r es by simp
      qed
    qed
  qed
qed


lemma definitions_simulate:
  "p < next_ref h \<Longrightarrow> str_lists h p = [] \<Longrightarrow>
   simulates (visit_definitions_heap ds p a h) (visit_definitions ds (entry_lists h a)) a h"
proof (induction ds arbitrary: h)
  case Nil
  show ?case by (simp add: simulates_def heap_step_refl)
next
  case (Cons d ds)
  show ?case
  proof (cases "definition_selections d")
    case None
    with Cons.IH [OF Cons.prems] show ?thesis by simp
  next
    case (Some ss)
    obtain r h1 where v: "visit_node_heap (Definition d) p 1 a h = (r, h1)"
      by fastforce
    have sim1: "simulates (r, h1) (visit_node (Definition d) [] 1 (entry_lists h a)) a h"
      using walker_simulates(1) [OF Cons.prems(1), of "Definition d" 1 a] Cons.prems(2) v
      by simp
    show ?thesis
    proof (cases "visit_node (Definition d) [] 1 (entry_lists h a)")
      case (Inl e)
      with sim1 have "r = Inl e" and "heap_step a h h1" by (simp_all add: simulates_def)
      then show ?thesis using Some v Inl by (simp add: simulates_def)
    next
      case (Inr es)
      with sim1 have r: "r = Inr ()" and e1: "entry_lists h1 a = es" and hs: "heap_step a h h1"
        by (simp_all add: simulates_def)
      have "p < next_ref h1" and "str_lists h1 p = []"
        using hs Cons.prems by (auto simp: heap_step_def)
      then have "simulates (visit_definitions_heap ds p a h1)
          (visit_definitions ds (entry_lists h1 a)) a h1"
        by (rule Cons.IH)
      then have "simulates (visit_definitions_heap ds p a h1) (visit_definitions ds es) a h"
        using hs by (simp add: e1 simulates_from)
      then show ?thesis using Some v r Inr by simp
    qed
  qed
qed

lemma extract_heap:
  "(case extract_fields_and_limit parse q of
      Inl e \<Rightarrow> fst (extract_fields_and_limit_heap parse q h) = Inl e
    | Inr es \<Rightarrow>
        fst (extract_fields_and_limit_heap parse q h) = Inr (next_ref h) \<and>
        entry_lists (snd (extract_fields_and_limit_heap parse q h)) (next_ref h) = es) \<and>
   next_ref h \<le> next_ref (snd (extract_fields_and_limit_heap parse q h)) \<and>
   (\<forall>r < next_ref h.
      str_lists (snd (extract_fields_and_limit_heap parse q h)) r = str_lists h r \<and>
      entry_lists (snd (extract_fields_and_limit_heap parse q h)) r = entry_lists h r) \<and>
   (\<forall>doc. parse q = Inr doc \<longrightarrow>
      str_lists (snd (extract_fields_and_limit_heap parse q h)) (Suc (next_ref h)) = [] \<and>
      Suc (next_ref h) < next_ref (snd (extract_fields_and_limit_heap parse q h)))"
proof (cases "parse q")
  case (Inl e)
  then show ?thesis
    by (simp add: extract_fields_and_limit_def extract_fields_and_limit_heap_def)
next
  case (Inr doc)
  let ?a = "next_ref h"
  let ?p = "Suc (next_ref h)"
  obtain h1 where n1: "new_entry_list [] h = (?a, h1)"
    by (simp add: new_entry_list_def)
  have "next_ref h1 = ?p"
    using n1 by (auto simp: new_entry_list_def)
  then obtain h2 where n2: "new_str_list [] h1 = (?p, h2)"
    by (simp add: new_str_list_def)
  note p1 = new_entry_list_props [OF n1]
  note p2 = new_str_list_props [OF n2]
  have h2: "next_ref h2 = Suc ?p" "str_lists h2 ?p = []" "entry_lists h2 ?a = []"
    "\<forall>r < ?a. str_lists h2 r = str_lists h r \<and> entry_lists h2 r = entry_lists h r"
    using p1 p2 by simp_all
  obtain r h3 where v: "visit_definitions_heap (definitions doc) ?p ?a h2 = (r, h3)"
    by fastforce
  have sim: "simulates (r, h3) (visit_definitions (definitions doc) []) ?a h2"
    using definitions_simulate [of ?p h2 "definitions doc" ?a] h2 v by simp
  then have hs: "heap_step ?a h2 h3"
    by (simp add: simulates_def)
  have frame: "next_ref h \<le> next_ref h3"
    "\<forall>r < ?a. str_lists h3 r = str_lists h r \<and> entry_lists h3 r = entry_lists h r"
    "str_lists h3 ?p = []" "?p < next_ref h3"
    using hs h2 by (auto simp: heap_step_def)
  have res: "extract_fields_and_limit_heap parse q h =
      (case r of Inl e \<Rightarrow> (Inl e, h3) | Inr u \<Rightarrow> (Inr ?a, h3))"
    using Inr n1 n2 v by (simp add: extract_fields_and_limit_heap_def split: sum.splits)
  show ?thesis
  proof (cases "visit_definitions (definitions doc) []")
    case e: (Inl e)
    with sim have "r = Inl e" by (simp add: simulates_def)
    then show ?thesis using Inr e res frame
      by (simp add: extract_fields_and_limit_def)
  next
    case es: (Inr es)
    with sim have "r = Inr ()" and "entry_lists h3 ?a = es" by (simp_all add: simulates_def)
    then show ?thesis using Inr es res frame
      by (simp add: extract_fields_and_limit_def)
  qed
qed

lemma calculate_cost_heap_snd:
  "snd (calculate_cost_heap parse q h) = snd (extract_fields_and_limit_heap parse q h)"
  by (cases "extract_fields_and_limit_heap parse q h")
     (auto simp: calculate_cost_heap_def Let_def split: sum.splits)

lemma calculate_cost_heap_report:
  "report_value (calculate_cost_heap parse q h) = calculate_cost parse q"
proof (cases "extract_fields_and_limit parse q")
  case (Inl e)
  with extract_heap [of parse q h] have "fst (extract_fields_and_limit_heap parse q h) = Inl e"
    by simp
  then show ?thesis using Inl
    by (cases "extract_fields_and_limit_heap parse q h")
       (simp add: calculate_cost_heap_def calculate_cost_def)
next
  case (Inr es)
  with extract_heap [of parse q h]
  have "fst (extract_fields_and_limit_heap parse q h) = Inr (next_ref h)"
    and "entry_lists (snd (extract_fields_and_limit_heap parse q h)) (next_ref h) = es"
    by simp_all
  then show ?thesis using Inr
    by (cases "extract_fields_and_limit_heap parse q h")
       (simp add: calculate_cost_heap_def calculate_cost_def Let_def)
qed

lemma calculate_cost_heap_ref:
  "fst (calculate_cost_heap parse q h) = Inr (t, fs, a) \<Longrightarrow> a = next_ref h"
  using extract_heap [of parse q h]
  by (cases "extract_fields_and_limit_heap parse q h"; cases "extract_fields_and_limit parse q")
     (auto simp: calculate_cost_heap_def Let_def split: sum.splits)

lemma calculate_cost_heap_frame:
  "r < next_ref h \<Longrightarrow>
   str_lists (snd (calculate_cost_heap parse q h)) r = str_lists h r \<and>
   entry_lists (snd (calculate_cost_heap parse q h)) r = entry_lists h r"
  using extract_heap [of parse q h] by (simp add: calculate_cost_heap_snd)

lemma calculate_cost_heap_next:
  assumes "fst (calculate_cost_heap parse q h) = Inr (t, fs, a)"
  shows "a < next_ref (snd (calculate_cost_heap parse q h))"
proof -
  have a: "a = next_ref h" using assms by (rule calculate_cost_heap_ref)
  have "parse q \<noteq> Inl e" for e
    using assms by (auto simp: calculate_cost_heap_def extract_fields_and_limit_heap_def)
  then obtain doc where "parse q = Inr doc"
    by (cases "parse q") auto
  then have "Suc (next_ref h) < next_ref (snd (calculate_cost_heap parse q h))"
    using extract_heap [of parse q h] by (simp add: calculate_cost_heap_snd)
  with a show ?thesis by simp
qed

lemmas heap_eval =
  calculate_cost_heap_def extract_fields_and_limit_heap_def new_entry_list_def new_str_list_def
  append_entry_def visit_node_heap.simps used_heap_def parser_on_def int_of_str_eval

section \<open>The claims\<close>

text \<open>
  Claim C2. Whenever the query parses and the walker completes, \<^verbatim>\<open>calculate_cost\<close> returns,
  and the total cost it returns is the sum of the effective limits of the entries plus the
  number of entries.
\<close>

theorem total_cost_sum_plus_count:
  assumes "parse q = Inr doc"
    and "visit_definitions (definitions doc) [] = Inr entries"
  shows "\<exists>total_cost fields. calculate_cost parse q = Inr (total_cost, fields, entries) \<and>
           total_cost = sum_list (map snd entries) + int (length entries)"
  using assms by (simp add: calculate_cost_def extract_fields_and_limit_def foldl_limits)

theorem total_cost_sum_plus_count_witness:
  "parser_on ''{ a(limit:10) { b(limit:3) { c } } }'' nested_limits_query
     ''{ a(limit:10) { b(limit:3) { c } } }'' = Inr nested_limits_query \<and>
   visit_definitions (definitions nested_limits_query) [] = Inr [(''a.b.c'', 30)] \<and>
   calculate_cost (parser_on ''{ a(limit:10) { b(limit:3) { c } } }'' nested_limits_query)
     ''{ a(limit:10) { b(limit:3) { c } } }'' = Inr (31, [''a.b.c''], [(''a.b.c'', 30)]) \<and>
   (31 :: int) = sum_list (map snd [(''a.b.c'', 30 :: int)]) + int (length [(''a.b.c'', 30 :: int)])"
proof -
  have p: "parser_on ''{ a(limit:10) { b(limit:3) { c } } }'' nested_limits_query
     ''{ a(limit:10) { b(limit:3) { c } } }'' = Inr nested_limits_query"
    by (simp add: parser_on_def)
  have v: "visit_definitions (definitions nested_limits_query) [] = Inr [(''a.b.c'', 30)]"
    by (simp add: nested_limits_query_def visit_definition visit_field int_of_str_eval)
  have c: "calculate_cost (parser_on ''{ a(limit:10) { b(limit:3) { c } } }'' nested_limits_query)
     ''{ a(limit:10) { b(limit:3) { c } } }'' = Inr (31, [''a.b.c''], [(''a.b.c'', 30)])"
    by (simp add: nested_limits_query_def query_eval)
  from total_cost_sum_plus_count
    [of "parser_on ''{ a(limit:10) { b(limit:3) { c } } }'' nested_limits_query"
        "''{ a(limit:10) { b(limit:3) { c } } }''" nested_limits_query "[(''a.b.c'', 30)]", OF p v]
  obtain total_cost fields where
    "calculate_cost (parser_on ''{ a(limit:10) { b(limit:3) { c } } }'' nested_limits_query)
       ''{ a(limit:10) { b(limit:3) { c } } }'' = Inr (total_cost, fields, [(''a.b.c'', 30)])"
    and t: "total_cost = sum_list (map snd [(''a.b.c'', 30 :: int)]) +
      int (length [(''a.b.c'', 30 :: int)])"
    by blast
  with c have "total_cost = 31" by simp
  with t have s: "(31 :: int) = sum_list (map snd [(''a.b.c'', 30 :: int)]) +
      int (length [(''a.b.c'', 30 :: int)])" by simp
  show ?thesis by (intro conjI p v c s)
qed

text \<open>
  Claim C10. In a result of \<^verbatim>\<open>calculate_cost\<close> the list of field paths is the list of the
  first components of the entries, in the same order and of the same length.
\<close>

theorem field_paths_from_entries:
  "calculate_cost parse q = Inr (total_cost, fields, entries) \<Longrightarrow>
   fields = map fst entries \<and> length fields = length entries"
  by (auto simp: calculate_cost_def Let_def split: sum.splits)

theorem field_paths_from_entries_witness:
  "calculate_cost (parser_on ''query A { items(limit: 5) { id name } } query B { a b }'' two_operations)
     ''query A { items(limit: 5) { id name } } query B { a b }'' =
     Inr (16, [''items.id'', ''items.name'', ''a'', ''b''],
          [(''items.id'', 5), (''items.name'', 5), (''a'', 1), (''b'', 1)]) \<and>
   [''items.id'', ''items.name'', ''a'', ''b''] =
     map fst [(''items.id'', 5 :: int), (''items.name'', 5), (''a'', 1), (''b'', 1)] \<and>
   length [''items.id'', ''items.name'', ''a'', ''b''] =
     length [(''items.id'', 5 :: int), (''items.name'', 5), (''a'', 1), (''b'', 1)]"
proof -
  have c: "calculate_cost (parser_on ''query A { items(limit: 5) { id name } } query B { a b }'' two_operations)
     ''query A { items(limit: 5) { id name } } query B { a b }'' =
     Inr (16, [''items.id'', ''items.name'', ''a'', ''b''],
          [(''items.id'', 5), (''items.name'', 5), (''a'', 1), (''b'', 1)])"
    by (simp add: two_operations_def query_eval)
  from field_paths_from_entries
    [of "parser_on ''query A { items(limit: 5) { id name } } query B { a b }'' two_operations"
        "''query A { items(limit: 5) { id name } } query B { a b }''", OF c] c
  show ?thesis by blast
qed

text \<open>
  Claim C8. When the parser rejects the input, nothing is traversed and no result is
  produced: \<^verbatim>\<open>extract_fields_and_limit\<close> and \<^verbatim>\<open>calculate_cost\<close> end with the very exception
  the parser raised.
\<close>

theorem syntax_error_propagates:
  "parse q = Inl e \<Longrightarrow>
   extract_fields_and_limit parse q = Inl e \<and> calculate_cost parse q = Inl e"
  by (simp add: calculate_cost_def extract_fields_and_limit_def)

theorem syntax_error_propagates_witness:
  "parser_on ''{ a b c }'' plain_query ''{ a b c'' =
     Inl (GraphQLSyntaxError ''Syntax Error: Unexpected input.'') \<and>
   extract_fields_and_limit (parser_on ''{ a b c }'' plain_query) ''{ a b c'' =
     Inl (GraphQLSyntaxError ''Syntax Error: Unexpected input.'') \<and>
   calculate_cost (parser_on ''{ a b c }'' plain_query) ''{ a b c'' =
     Inl (GraphQLSyntaxError ''Syntax Error: Unexpected input.'')"
proof -
  have p: "parser_on ''{ a b c }'' plain_query ''{ a b c'' =
     Inl (GraphQLSyntaxError ''Syntax Error: Unexpected input.'')"
    by (simp add: parser_on_def)
  from syntax_error_propagates
    [of "parser_on ''{ a b c }'' plain_query" "''{ a b c''", OF p] p
  show ?thesis by blast
qed

text \<open>
  Claim C6. The entries of a document are those of its definitions, each traversed on its
  own from the multiplier 1, the empty path and no entries, put one after the other in
  document order (and the first exception, if a definition raises one).
\<close>

theorem definitions_traversed_independently:
  assumes "parse q = Inr doc"
  shows "extract_fields_and_limit parse q =
           concat_results (map definition_entries (definitions doc))"
  using assms by (simp add: extract_fields_and_limit_def visit_definitions_concat)

theorem definitions_traversed_independently_witness:
  "parser_on ''query A { items(limit: 5) { id name } } query B { a b }'' two_operations
     ''query A { items(limit: 5) { id name } } query B { a b }'' = Inr two_operations \<and>
   map definition_entries (definitions two_operations) =
     [Inr [(''items.id'', 5), (''items.name'', 5)], Inr [(''a'', 1), (''b'', 1)]] \<and>
   extract_fields_and_limit
     (parser_on ''query A { items(limit: 5) { id name } } query B { a b }'' two_operations)
     ''query A { items(limit: 5) { id name } } query B { a b }'' =
     Inr [(''items.id'', 5), (''items.name'', 5), (''a'', 1), (''b'', 1)]"
proof -
  have p: "parser_on ''query A { items(limit: 5) { id name } } query B { a b }'' two_operations
     ''query A { items(limit: 5) { id name } } query B { a b }'' = Inr two_operations"
    by (simp add: parser_on_def)
  have d: "map definition_entries (definitions two_operations) =
     [Inr [(''items.id'', 5), (''items.name'', 5)], Inr [(''a'', 1), (''b'', 1)]]"
    by (simp add: two_operations_def definition_entries_def visit_definition visit_field
        int_of_str_eval)
  from definitions_traversed_independently
    [of "parser_on ''query A { items(limit: 5) { id name } } query B { a b }'' two_operations"
        "''query A { items(limit: 5) { id name } } query B { a b }''" two_operations, OF p]
  have "extract_fields_and_limit
     (parser_on ''query A { items(limit: 5) { id name } } query B { a b }'' two_operations)
     ''query A { items(limit: 5) { id name } } query B { a b }'' =
     concat_results (map definition_entries (definitions two_operations))" .
  with p d show ?thesis by simp
qed

text \<open>
  Claim C7. The field paths of a result are the paths of the leaf occurrences of the
  document, from left to right and depth first as they are written; there is one entry for
  every occurrence, so a leaf written twice, under the same parent or under different
  ones, is listed twice.
\<close>

theorem field_paths_in_written_order:
  assumes "parse q = Inr doc" and "calculate_cost parse q = Inr (total_cost, fields, entries)"
  shows "fields = map leaf_path (document_leaves doc) \<and>
         length entries = length (document_leaves doc)"
proof -
  have "entries = map leaf_entry (document_leaves doc)"
    using assms by (rule calculate_cost_entries)
  moreover have "fields = map fst entries"
    using assms(2) by (simp add: calculate_cost_Inr)
  ultimately show ?thesis by (simp add: leaf_entry_def comp_def)
qed

theorem field_paths_in_written_order_witness:
  "parser_on ''{ a a b { a } a }'' repeated_leaves_query ''{ a a b { a } a }'' =
     Inr repeated_leaves_query \<and>
   calculate_cost (parser_on ''{ a a b { a } a }'' repeated_leaves_query) ''{ a a b { a } a }'' =
     Inr (8, [''a'', ''a'', ''b.a'', ''a''], [(''a'', 1), (''a'', 1), (''b.a'', 1), (''a'', 1)]) \<and>
   [''a'', ''a'', ''b.a'', ''a''] = map leaf_path (document_leaves repeated_leaves_query) \<and>
   length [(''a'', 1 :: int), (''a'', 1), (''b.a'', 1), (''a'', 1)] =
     length (document_leaves repeated_leaves_query)"
proof -
  have p: "parser_on ''{ a a b { a } a }'' repeated_leaves_query ''{ a a b { a } a }'' =
     Inr repeated_leaves_query"
    by (simp add: parser_on_def)
  have c: "calculate_cost (parser_on ''{ a a b { a } a }'' repeated_leaves_query)
      ''{ a a b { a } a }'' =
     Inr (8, [''a'', ''a'', ''b.a'', ''a''], [(''a'', 1), (''a'', 1), (''b.a'', 1), (''a'', 1)])"
    by (simp add: repeated_leaves_query_def query_eval)
  from field_paths_in_written_order
    [of "parser_on ''{ a a b { a } a }'' repeated_leaves_query" "''{ a a b { a } a }''"
        repeated_leaves_query, OF p c] p c
  show ?thesis by blast
qed

text \<open>
  Claim C3. The limit recorded for a leaf is the product of the limits of its strict
  ancestors, a field without \<^verbatim>\<open>limit\<close> counting as 1 and the root as 1. A query without
  any \<^verbatim>\<open>limit\<close> argument and with N leaves costs 2N, and
  \<^verbatim>\<open>{ a(limit:10) { b(limit:3) { c } } }\<close> gives the one entry \<^verbatim>\<open>("a.b.c", 30)\<close> and the
  total 31.
\<close>

theorem effective_limit_product_of_ancestors:
  assumes "parse q = Inr doc" and "calculate_cost parse q = Inr (total_cost, fields, entries)"
  shows "map snd entries = map (\<lambda>(anc, leaf). effective_limit anc) (document_leaves doc) \<and>
         (no_limit_arguments doc \<longrightarrow> total_cost = 2 * int (length (document_leaves doc))) \<and>
         calculate_cost (parser_on ''{ a(limit:10) { b(limit:3) { c } } }'' nested_limits_query)
           ''{ a(limit:10) { b(limit:3) { c } } }'' = Inr (31, [''a.b.c''], [(''a.b.c'', 30)])"
proof (intro conjI)
  have e: "entries = map leaf_entry (document_leaves doc)"
    using assms by (rule calculate_cost_entries)
  then show m: "map snd entries = map (\<lambda>(anc, leaf). effective_limit anc) (document_leaves doc)"
    by (simp add: leaf_entry_def comp_def case_prod_beta)
  have t: "total_cost = sum_list (map snd entries) + int (length entries)"
    using assms(2) by (simp add: calculate_cost_Inr)
  show "no_limit_arguments doc \<longrightarrow> total_cost = 2 * int (length (document_leaves doc))"
  proof
    assume n: "no_limit_arguments doc"
    have "\<forall>x \<in> set (map snd entries). x = 1"
      unfolding m using effective_limit_no_limit [OF n] by auto
    then have "sum_list (map snd entries) = int (length (map snd entries))"
      by (rule sum_list_ones)
    with t e show "total_cost = 2 * int (length (document_leaves doc))" by simp
  qed
  show "calculate_cost (parser_on ''{ a(limit:10) { b(limit:3) { c } } }'' nested_limits_query)
           ''{ a(limit:10) { b(limit:3) { c } } }'' = Inr (31, [''a.b.c''], [(''a.b.c'', 30)])"
    by (simp add: nested_limits_query_def query_eval)
qed

theorem effective_limit_product_of_ancestors_witness:
  "parser_on ''{ a b c }'' plain_query ''{ a b c }'' = Inr plain_query \<and>
   calculate_cost (parser_on ''{ a b c }'' plain_query) ''{ a b c }'' =
     Inr (6, [''a'', ''b'', ''c''], [(''a'', 1), (''b'', 1), (''c'', 1)]) \<and>
   no_limit_arguments plain_query \<and>
   map snd [(''a'', 1 :: int), (''b'', 1), (''c'', 1)] =
     map (\<lambda>(anc, leaf). effective_limit anc) (document_leaves plain_query) \<and>
   (6 :: int) = 2 * int (length (document_leaves plain_query)) \<and>
   parser_on ''query A { items(limit: 5) { id name } } query B { a b }'' two_operations
     ''query A { items(limit: 5) { id name } } query B { a b }'' = Inr two_operations \<and>
   calculate_cost
     (parser_on ''query A { items(limit: 5) { id name } } query B { a b }'' two_operations)
     ''query A { items(limit: 5) { id name } } query B { a b }'' =
     Inr (16, [''items.id'', ''items.name'', ''a'', ''b''],
          [(''items.id'', 5), (''items.name'', 5), (''a'', 1), (''b'', 1)]) \<and>
   map snd [(''items.id'', 5 :: int), (''items.name'', 5), (''a'', 1), (''b'', 1)] =
     map (\<lambda>(anc, leaf). effective_limit anc) (document_leaves two_operations)"
proof -
  have p: "parser_on ''{ a b c }'' plain_query ''{ a b c }'' = Inr plain_query"
    by (simp add: parser_on_def)
  have c: "calculate_cost (parser_on ''{ a b c }'' plain_query) ''{ a b c }'' =
     Inr (6, [''a'', ''b'', ''c''], [(''a'', 1), (''b'', 1), (''c'', 1)])"
    by (simp add: plain_query_def query_eval)
  have n: "no_limit_arguments plain_query"
    by (simp add: no_limit_arguments_def document_arguments_def definition_arguments_def
        plain_query_def)
  have p2: "parser_on ''query A { items(limit: 5) { id name } } query B { a b }'' two_operations
     ''query A { items(limit: 5) { id name } } query B { a b }'' = Inr two_operations"
    by (simp add: parser_on_def)
  have c2: "calculate_cost
     (parser_on ''query A { items(limit: 5) { id name } } query B { a b }'' two_operations)
     ''query A { items(limit: 5) { id name } } query B { a b }'' =
     Inr (16, [''items.id'', ''items.name'', ''a'', ''b''],
          [(''items.id'', 5), (''items.name'', 5), (''a'', 1), (''b'', 1)])"
    by (simp add: two_operations_def query_eval)
  from effective_limit_product_of_ancestors
    [of "parser_on ''{ a b c }'' plain_query" "''{ a b c }''" plain_query, OF p c]
    effective_limit_product_of_ancestors
    [of "parser_on ''query A { items(limit: 5) { id name } } query B { a b }'' two_operations"
        "''query A { items(limit: 5) { id name } } query B { a b }''" two_operations, OF p2 c2]
    p c n p2 c2
  show ?thesis by blast
qed

text \<open>
  Claim C5 as stated fails: \<^verbatim>\<open>{ a(limit: 0) { b } }\<close> keeps the convention (its only limit
  is the non-negative integer literal 0) and yields the entry \<^verbatim>\<open>("a.b", 0)\<close>, whose limit
  is not positive.
\<close>

theorem zero_limit_counterexample:
  "limits_nonnegative zero_limit_query \<and>
   extract_fields_and_limit (parser_on ''{ a(limit: 0) { b } }'' zero_limit_query)
     ''{ a(limit: 0) { b } }'' = Inr [(''a.b'', 0)] \<and>
   \<not> 0 < snd (''a.b'', 0 :: int)"
  by (simp add: zero_limit_query_def limits_nonnegative_def limits_satisfy_def
      document_arguments_def definition_arguments_def limit_literal_def query_eval)

text \<open>
  Claim C5, amended. When every \<^verbatim>\<open>limit\<close> argument of the query is a non-negative integer
  literal, every entry has a non-negative limit; when every one is a positive integer
  literal, every entry has a positive limit.
\<close>

theorem effective_limit_nonnegative:
  assumes "parse q = Inr doc" and "extract_fields_and_limit parse q = Inr entries"
    and "(path, limit) \<in> set entries"
  shows "(limits_nonnegative doc \<longrightarrow> 0 \<le> limit) \<and>
         (limits_positive doc \<longrightarrow> 0 < limit)"
proof -
  have "entries = map leaf_entry (document_leaves doc)"
    using assms(1,2) by (rule extract_entries)
  with assms(3) obtain anc leaf where o: "(anc, leaf) \<in> set (document_leaves doc)"
    and l: "limit = effective_limit anc"
    by (auto simp: leaf_entry_def)
  have "0 \<le> effective_limit anc" if "limits_nonnegative doc"
    by (rule effective_limit_satisfies
          [where P = "\<lambda>v. 0 \<le> v", OF _ _ that [unfolded limits_nonnegative_def] o])
       simp_all
  moreover have "0 < effective_limit anc" if "limits_positive doc"
    by (rule effective_limit_satisfies
          [where P = "\<lambda>v. 0 < v", OF _ _ that [unfolded limits_positive_def] o])
       simp_all
  ultimately show ?thesis using l by blast
qed

theorem effective_limit_nonnegative_witness:
  "parser_on ''query A { items(limit: 5) { id name } } query B { a b }'' two_operations
     ''query A { items(limit: 5) { id name } } query B { a b }'' = Inr two_operations \<and>
   extract_fields_and_limit
     (parser_on ''query A { items(limit: 5) { id name } } query B { a b }'' two_operations)
     ''query A { items(limit: 5) { id name } } query B { a b }'' =
     Inr [(''items.id'', 5), (''items.name'', 5), (''a'', 1), (''b'', 1)] \<and>
   (''items.id'', 5) \<in> set [(''items.id'', 5 :: int), (''items.name'', 5), (''a'', 1), (''b'', 1)] \<and>
   limits_nonnegative two_operations \<and>
   limits_positive two_operations \<and>
   (0 :: int) \<le> 5 \<and> (0 :: int) < 5"
proof -
  have p: "parser_on ''query A { items(limit: 5) { id name } } query B { a b }'' two_operations
     ''query A { items(limit: 5) { id name } } query B { a b }'' = Inr two_operations"
    by (simp add: parser_on_def)
  have x: "extract_fields_and_limit
     (parser_on ''query A { items(limit: 5) { id name } } query B { a b }'' two_operations)
     ''query A { items(limit: 5) { id name } } query B { a b }'' =
     Inr [(''items.id'', 5), (''items.name'', 5), (''a'', 1), (''b'', 1)]"
    by (simp add: two_operations_def query_eval)
  have m: "(''items.id'', 5) \<in>
     set [(''items.id'', 5 :: int), (''items.name'', 5), (''a'', 1), (''b'', 1)]"
    by simp
  have n: "limits_nonnegative two_operations"
    by (simp add: two_operations_def limits_nonnegative_def limits_satisfy_def document_arguments_def
      definition_arguments_def limit_literal_def int_of_str_eval)
  have s: "limits_positive two_operations"
    by (simp add: two_operations_def limits_positive_def limits_satisfy_def document_arguments_def
      definition_arguments_def limit_literal_def int_of_str_eval)
  note r = effective_limit_nonnegative
    [of "parser_on ''query A { items(limit: 5) { id name } } query B { a b }'' two_operations"
        "''query A { items(limit: 5) { id name } } query B { a b }''" two_operations
        "[(''items.id'', 5), (''items.name'', 5), (''a'', 1), (''b'', 1)]" "''items.id''" 5,
     OF p x m]
  have a: "(0 :: int) \<le> 5" using r [THEN conjunct1] n by (rule mp)
  have b: "(0 :: int) < 5" using r [THEN conjunct2] s by (rule mp)
  show ?thesis by (intro conjI p x m n s a b)
qed

text \<open>
  Claim C1 as stated fails: for \<^verbatim>\<open>{ a(limit: 2) }\<close> the walker records \<^verbatim>\<open>("a", 1)\<close> and
  the total cost is 2, not \<^verbatim>\<open>("a", 2)\<close> and 3. A leaf is appended by the visit of its
  parent, with the parent's \<^verbatim>\<open>child_limit\<close>; \<^verbatim>\<open>visit_node\<close> is never called on the leaf.
\<close>

theorem leaf_limit_counterexample:
  "calculate_cost (parser_on ''{ a(limit: 2) }'' leaf_limit_query) ''{ a(limit: 2) }'' =
     Inr (2, [''a''], [(''a'', 1)]) \<and>
   calculate_cost (parser_on ''{ a(limit: 2) }'' leaf_limit_query) ''{ a(limit: 2) }'' \<noteq>
     Inr (3, [''a''], [(''a'', 2)])"
  by (simp add: leaf_limit_query_def query_eval)

text \<open>
  Claim C1, amended. The arguments of a leaf field, \<^verbatim>\<open>limit\<close> included, are never read: the
  entry appended for a leaf carries the multiplier in force in its parent, whatever the
  leaf's arguments are, and removing the arguments of all leaf fields of a document changes
  nothing in the result of \<^verbatim>\<open>calculate_cost\<close>.
\<close>

theorem leaf_arguments_never_read:
  assumes "parse q = Inr doc" and "parse' q' = Inr (document_without_leaf_arguments doc)"
  shows "calculate_cost parse' q' = calculate_cost parse q \<and>
         visit_selections (FieldNode n args None # ss) path child_limit all_fields =
           visit_selections ss path child_limit
             (all_fields @ [(join ''.'' (path @ [n]), child_limit)])"
  using assms
  by (simp add: calculate_cost_def extract_fields_and_limit_def
      document_without_leaf_arguments_def visit_definitions_without_leaf_arguments)

theorem leaf_arguments_never_read_witness:
  "parser_on ''{ a(limit: 2) }'' leaf_limit_query ''{ a(limit: 2) }'' = Inr leaf_limit_query \<and>
   parser_on ''{ a }'' (DocumentNode [OperationDefinitionNode [FieldNode ''a'' [] None]]) ''{ a }'' =
     Inr (document_without_leaf_arguments leaf_limit_query) \<and>
   calculate_cost
     (parser_on ''{ a }'' (DocumentNode [OperationDefinitionNode [FieldNode ''a'' [] None]]))
     ''{ a }'' =
     calculate_cost (parser_on ''{ a(limit: 2) }'' leaf_limit_query) ''{ a(limit: 2) }'' \<and>
   calculate_cost (parser_on ''{ a(limit: 2) }'' leaf_limit_query) ''{ a(limit: 2) }'' =
     Inr (2, [''a''], [(''a'', 1)])"
proof -
  have p: "parser_on ''{ a(limit: 2) }'' leaf_limit_query ''{ a(limit: 2) }'' =
      Inr leaf_limit_query"
    by (simp add: parser_on_def)
  have p': "parser_on ''{ a }'' (DocumentNode [OperationDefinitionNode [FieldNode ''a'' [] None]])
      ''{ a }'' = Inr (document_without_leaf_arguments leaf_limit_query)"
    by (simp add: parser_on_def document_without_leaf_arguments_def leaf_limit_query_def)
  have c: "calculate_cost (parser_on ''{ a(limit: 2) }'' leaf_limit_query) ''{ a(limit: 2) }'' =
     Inr (2, [''a''], [(''a'', 1)])"
    by (simp add: leaf_limit_query_def query_eval)
  note r = leaf_arguments_never_read
    [of "parser_on ''{ a(limit: 2) }'' leaf_limit_query" "''{ a(limit: 2) }''" leaf_limit_query
        "parser_on ''{ a }'' (DocumentNode [OperationDefinitionNode [FieldNode ''a'' [] None]])"
        "''{ a }''", OF p p', THEN conjunct1]
  show ?thesis by (intro conjI p p' c r)
qed


text \<open>
  Claim C9. Two calls of \<^verbatim>\<open>calculate_cost\<close> on the same query, one after the other on a
  heap in any state, give the same report, which is the report of the walker of the first
  sections. The second call leaves the report of the first as it was; a call changes no
  object that was there before it; and the default object of \<^verbatim>\<open>path\<close> still holds the
  empty list when the call ends.
\<close>

theorem calls_share_no_state:
  "report_value (calculate_cost_heap parse q h) = calculate_cost parse q \<and>
   report_value (calculate_cost_heap parse q (snd (calculate_cost_heap parse q h))) =
     report_value (calculate_cost_heap parse q h) \<and>
   report_value (fst (calculate_cost_heap parse q h),
       snd (calculate_cost_heap parse q (snd (calculate_cost_heap parse q h)))) =
     report_value (calculate_cost_heap parse q h) \<and>
   (r < next_ref h \<longrightarrow>
      str_lists (snd (calculate_cost_heap parse q h)) r = str_lists h r \<and>
      entry_lists (snd (calculate_cost_heap parse q h)) r = entry_lists h r) \<and>
   (parse q = Inr doc \<longrightarrow>
      str_lists (snd (calculate_cost_heap parse q h)) (Suc (next_ref h)) = [])"
proof (intro conjI impI)
  show "report_value (calculate_cost_heap parse q h) = calculate_cost parse q"
    by (rule calculate_cost_heap_report)
  show "report_value (calculate_cost_heap parse q (snd (calculate_cost_heap parse q h))) =
     report_value (calculate_cost_heap parse q h)"
    by (simp add: calculate_cost_heap_report)
  show "report_value (fst (calculate_cost_heap parse q h),
       snd (calculate_cost_heap parse q (snd (calculate_cost_heap parse q h)))) =
     report_value (calculate_cost_heap parse q h)"
  proof (cases "fst (calculate_cost_heap parse q h)")
    case (Inl e)
    then show ?thesis by (cases "calculate_cost_heap parse q h") simp
  next
    case (Inr rep)
    obtain t fs a where rep: "rep = (t, fs, a)" by (cases rep)
    have "a < next_ref (snd (calculate_cost_heap parse q h))"
      using Inr rep by (intro calculate_cost_heap_next) simp
    then have "entry_lists (snd (calculate_cost_heap parse q (snd (calculate_cost_heap parse q h)))) a =
        entry_lists (snd (calculate_cost_heap parse q h)) a"
      using calculate_cost_heap_frame by blast
    then show ?thesis using Inr rep by (cases "calculate_cost_heap parse q h") simp
  qed
next
  assume "r < next_ref h"
  then show "str_lists (snd (calculate_cost_heap parse q h)) r = str_lists h r"
    and "entry_lists (snd (calculate_cost_heap parse q h)) r = entry_lists h r"
    using calculate_cost_heap_frame by blast+
next
  assume "parse q = Inr doc"
  then show "str_lists (snd (calculate_cost_heap parse q h)) (Suc (next_ref h)) = []"
    using extract_heap [of parse q h] by (simp add: calculate_cost_heap_snd)
qed

theorem calls_share_no_state_witness:
  "report_value (calculate_cost_heap
       (parser_on ''query A { items(limit: 5) { id name } } query B { a b }'' two_operations)
       ''query A { items(limit: 5) { id name } } query B { a b }'' used_heap) =
     Inr (16, [''items.id'', ''items.name'', ''a'', ''b''],
          [(''items.id'', 5), (''items.name'', 5), (''a'', 1), (''b'', 1)]) \<and>
   fst (calculate_cost_heap
       (parser_on ''query A { items(limit: 5) { id name } } query B { a b }'' two_operations)
       ''query A { items(limit: 5) { id name } } query B { a b }'' used_heap) =
     Inr (16, [''items.id'', ''items.name'', ''a'', ''b''], 2) \<and>
   report_value (calculate_cost_heap
       (parser_on ''query A { items(limit: 5) { id name } } query B { a b }'' two_operations)
       ''query A { items(limit: 5) { id name } } query B { a b }''
       (snd (calculate_cost_heap
          (parser_on ''query A { items(limit: 5) { id name } } query B { a b }'' two_operations)
          ''query A { items(limit: 5) { id name } } query B { a b }'' used_heap))) =
     Inr (16, [''items.id'', ''items.name'', ''a'', ''b''],
          [(''items.id'', 5), (''items.name'', 5), (''a'', 1), (''b'', 1)]) \<and>
   fst (calculate_cost_heap
       (parser_on ''query A { items(limit: 5) { id name } } query B { a b }'' two_operations)
       ''query A { items(limit: 5) { id name } } query B { a b }''
       (snd (calculate_cost_heap
          (parser_on ''query A { items(limit: 5) { id name } } query B { a b }'' two_operations)
          ''query A { items(limit: 5) { id name } } query B { a b }'' used_heap))) =
     Inr (16, [''items.id'', ''items.name'', ''a'', ''b''], 9) \<and>
   (1 :: nat) < next_ref used_heap \<and>
   str_lists (snd (calculate_cost_heap
       (parser_on ''query A { items(limit: 5) { id name } } query B { a b }'' two_operations)
       ''query A { items(limit: 5) { id name } } query B { a b }'' used_heap)) 1 = [''stale''] \<and>
   entry_lists (snd (calculate_cost_heap
       (parser_on ''query A { items(limit: 5) { id name } } query B { a b }'' two_operations)
       ''query A { items(limit: 5) { id name } } query B { a b }'' used_heap)) 1 =
     [(''stale'', 99)] \<and>
   parser_on ''query A { items(limit: 5) { id name } } query B { a b }'' two_operations
     ''query A { items(limit: 5) { id name } } query B { a b }'' = Inr two_operations \<and>
   str_lists (snd (calculate_cost_heap
       (parser_on ''query A { items(limit: 5) { id name } } query B { a b }'' two_operations)
       ''query A { items(limit: 5) { id name } } query B { a b }'' used_heap)) 3 = []"
proof -
  let ?parse = "parser_on ''query A { items(limit: 5) { id name } } query B { a b }'' two_operations"
  let ?q = "''query A { items(limit: 5) { id name } } query B { a b }''"
  have p: "?parse ?q = Inr two_operations"
    by (simp add: parser_on_def)
  have c: "calculate_cost ?parse ?q =
     Inr (16, [''items.id'', ''items.name'', ''a'', ''b''],
          [(''items.id'', 5), (''items.name'', 5), (''a'', 1), (''b'', 1)])"
    by (simp add: two_operations_def query_eval)
  have f1: "fst (calculate_cost_heap ?parse ?q used_heap) =
     Inr (16, [''items.id'', ''items.name'', ''a'', ''b''], 2)"
    by (simp add: two_operations_def heap_eval)
  have n1: "next_ref (snd (calculate_cost_heap ?parse ?q used_heap)) = 9"
    by (simp add: two_operations_def heap_eval)
  have f2: "fst (calculate_cost_heap ?parse ?q (snd (calculate_cost_heap ?parse ?q used_heap))) =
     Inr (16, [''items.id'', ''items.name'', ''a'', ''b''], 9)"
  proof -
    obtain a b where ab: "calculate_cost_heap ?parse ?q
        (snd (calculate_cost_heap ?parse ?q used_heap)) = (a, b)"
      by fastforce
    have "report_value (a, b) =
        Inr (16, [''items.id'', ''items.name'', ''a'', ''b''],
          [(''items.id'', 5), (''items.name'', 5), (''a'', 1), (''b'', 1)])"
      using calculate_cost_heap_report
        [of ?parse ?q "snd (calculate_cost_heap ?parse ?q used_heap)"] c ab
      by simp
    then obtain ref where a: "a = Inr (16, [''items.id'', ''items.name'', ''a'', ''b''], ref)"
      by (cases "(a, b)" rule: report_value.cases) auto
    then have "ref = next_ref (snd (calculate_cost_heap ?parse ?q used_heap))"
      using calculate_cost_heap_ref
        [of ?parse ?q "snd (calculate_cost_heap ?parse ?q used_heap)"] ab
      by simp
    then show ?thesis using a ab n1 by simp
  qed
  have l: "(1 :: nat) < next_ref used_heap"
    by (simp add: used_heap_def)
  note r = calls_share_no_state [of ?parse ?q used_heap 1 two_operations]
  have r1: "report_value (calculate_cost_heap ?parse ?q used_heap) =
     Inr (16, [''items.id'', ''items.name'', ''a'', ''b''],
          [(''items.id'', 5), (''items.name'', 5), (''a'', 1), (''b'', 1)])"
    using r [THEN conjunct1] c by simp
  have r2: "report_value (calculate_cost_heap ?parse ?q
       (snd (calculate_cost_heap ?parse ?q used_heap))) =
     Inr (16, [''items.id'', ''items.name'', ''a'', ''b''],
          [(''items.id'', 5), (''items.name'', 5), (''a'', 1), (''b'', 1)])"
    using r [THEN conjunct2, THEN conjunct1] r1 by simp
  have r4: "str_lists (snd (calculate_cost_heap ?parse ?q used_heap)) 1 = [''stale''] \<and>
     entry_lists (snd (calculate_cost_heap ?parse ?q used_heap)) 1 = [(''stale'', 99)]"
    using mp [OF r [THEN conjunct2, THEN conjunct2, THEN conjunct2, THEN conjunct1] l]
    by (simp add: used_heap_def)
  have r5: "str_lists (snd (calculate_cost_heap ?parse ?q used_heap)) 3 = []"
    using mp [OF r [THEN conjunct2, THEN conjunct2, THEN conjunct2, THEN conjunct2] p]
    by (simp add: used_heap_def)
  show ?thesis
    by (intro conjI r1 f1 r2 f2 l r4 [THEN conjunct1] r4 [THEN conjunct2] p r5)
qed



end
